theory Spec2Isabelle
  imports
    Complex_Main
    "HOL-Library.AList"
    "HOL-Library.Char_ord"
    "HOL-Library.List_Lexorder"
    "HOL-Library.Multiset"
    "HOL-Library.Sublist"
begin

section \<open>Data model (types.ts)\<close>

text \<open>
  The TypeScript interfaces become records. A field whose source name is taken by a HOL
  constant or an Isabelle keyword carries the prefix \<open>item_\<close> (\<open>id\<close>, \<open>name\<close>,
  \<open>location\<close>, \<open>value\<close>). Counts (\<open>quantity\<close>, \<open>minStock\<close>, \<open>maxStock\<close>, \<open>shelf\<close>,
  \<open>position\<close>) are integers; prices, weights and monetary values are reals: the
  fields of a record hold finite numbers. Sums and differences of finite numbers are
  exact in this model; the quotients and the product of the space allocation are rounded
  to the nearest double (see \<open>double_round\<close> below), since the ranking by value density
  depends on which quotients coincide. Strings are lists of 8-bit characters compared by character code, as
  JavaScript compares UTF-16 code units.
\<close>

record location =
  aisle :: string
  shelf :: int
  position :: int

record inventoryItem =
  item_id :: string
  item_name :: string
  category :: string
  quantity :: int
  minStock :: int
  maxStock :: int
  unitPrice :: real
  item_location :: location
  dateAdded :: string
  lastUpdated :: string
  supplier :: string
  weight :: real
  item_value :: real

text \<open>
  An item with the given id, name, quantity, weight and value, and fixed other fields, for
  the concrete instances below.
\<close>

definition example_item :: "string \<Rightarrow> string \<Rightarrow> int \<Rightarrow> real \<Rightarrow> real \<Rightarrow> inventoryItem" where
  "example_item i n q w v =
     \<lparr>item_id = i, item_name = n, category = ''Electronics'', quantity = q, minStock = 10,
      maxStock = 100, unitPrice = 1, item_location = \<lparr>aisle = ''A'', shelf = 1, position = 1\<rparr>,
      dateAdded = ''2024-01-15'', lastUpdated = ''2024-01-20'', supplier = ''TechCorp'',
      weight = w, item_value = v\<rparr>"

text \<open>\<open>keyof InventoryItem\<close>: the thirteen property names.\<close>

datatype field =
    F_id | F_name | F_category | F_quantity | F_minStock | F_maxStock | F_unitPrice
  | F_location | F_dateAdded | F_lastUpdated | F_supplier | F_weight | F_value

text \<open>What \<open>item[key]\<close> evaluates to: a string, a number or the location object.\<close>

datatype jsval = Str string | Num real | Obj location

fun field_value :: "inventoryItem \<Rightarrow> field \<Rightarrow> jsval" where
  "field_value it F_id = Str (item_id it)"
| "field_value it F_name = Str (item_name it)"
| "field_value it F_category = Str (category it)"
| "field_value it F_quantity = Num (of_int (quantity it))"
| "field_value it F_minStock = Num (of_int (minStock it))"
| "field_value it F_maxStock = Num (of_int (maxStock it))"
| "field_value it F_unitPrice = Num (unitPrice it)"
| "field_value it F_location = Obj (item_location it)"
| "field_value it F_dateAdded = Str (dateAdded it)"
| "field_value it F_lastUpdated = Str (lastUpdated it)"
| "field_value it F_supplier = Str (supplier it)"
| "field_value it F_weight = Num (weight it)"
| "field_value it F_value = Num (item_value it)"

fun field_name :: "field \<Rightarrow> string" where
  "field_name F_id = ''id''"
| "field_name F_name = ''name''"
| "field_name F_category = ''category''"
| "field_name F_quantity = ''quantity''"
| "field_name F_minStock = ''minStock''"
| "field_name F_maxStock = ''maxStock''"
| "field_name F_unitPrice = ''unitPrice''"
| "field_name F_location = ''location''"
| "field_name F_dateAdded = ''dateAdded''"
| "field_name F_lastUpdated = ''lastUpdated''"
| "field_name F_supplier = ''supplier''"
| "field_name F_weight = ''weight''"
| "field_name F_value = ''value''"

text \<open>
  \<open>AlgorithmPerformance\<close>. The field \<open>executionTime\<close> is a difference of two readings of
  the wall clock and is left out; the optional counters are options.
\<close>

record algorithmPerformance =
  algorithm :: string
  operation :: string
  dataSize :: nat
  perf_comparisons :: "nat option"
  perf_swaps :: "nat option"

subsection \<open>Numbers that may be infinite or undefined\<close>

text \<open>
  Where the source starts from \<open>Infinity\<close> or divides, a JavaScript number is a finite
  value, one of the two infinities, or NaN. The operations follow IEEE 754 on these four
  kinds.
\<close>

datatype jsnum = Fin real | PInf | NInf | NaN

text \<open>
  Rounding of a real number to the nearest double (IEEE 754 binary64), ties to the even
  significand. The doubles next to \<open>x\<close> are the multiples of \<open>ulp x\<close>: for
  \<open>2 ^ e \<le> \<bar>x\<bar> < 2 ^ (e + 1)\<close> with \<open>e\<close> from \<open>-1022\<close> to \<open>1023\<close> this is \<open>2 ^ (e - 52)\<close>,
  below \<open>2 ^ -1022\<close> (the subnormal numbers) it is \<open>2 ^ -1074\<close>. The two searches start
  at \<open>e = 0\<close> and halve or double the number until it lies in \<open>[1, 2)\<close>, for at most 1023
  and 1022 steps. A result of magnitude \<open>2 ^ 1024\<close> or more is an infinity. The sign of a
  zero is not modelled.
\<close>

definition round_half_even :: "real \<Rightarrow> int" where
  "round_half_even x =
     (let f = \<lfloor>x\<rfloor> in
      if x - of_int f < 1 / 2 then f
      else if 1 / 2 < x - of_int f then f + 1
      else if even f then f else f + 1)"

fun ulp_up :: "nat \<Rightarrow> real \<Rightarrow> real \<Rightarrow> real" where
  "ulp_up 0 x u = u"
| "ulp_up (Suc n) x u = (if x < 2 then u else ulp_up n (x / 2) (u * 2))"

fun ulp_down :: "nat \<Rightarrow> real \<Rightarrow> real \<Rightarrow> real" where
  "ulp_down 0 x u = u"
| "ulp_down (Suc n) x u = (if 1 \<le> x then u else ulp_down n (x * 2) (u / 2))"

definition ulp :: "real \<Rightarrow> real" where
  "ulp x = (if 1 \<le> \<bar>x\<bar> then ulp_up 1023 \<bar>x\<bar> (1 / 2 ^ 52)
            else ulp_down 1022 \<bar>x\<bar> (1 / 2 ^ 52))"

definition double_round :: "real \<Rightarrow> jsnum" where
  "double_round x =
     (if x = 0 then Fin 0
      else let r = of_int (round_half_even (x / ulp x)) * ulp x
           in if 2 ^ 1024 \<le> r then PInf else if r \<le> - (2 ^ 1024) then NInf else Fin r)"

text \<open>The operator \<open>/\<close> on two finite numbers: the quotient, correctly rounded.\<close>

fun num_div :: "real \<Rightarrow> real \<Rightarrow> jsnum" where
  "num_div a b =
     (if b \<noteq> 0 then double_round (a / b)
      else if 0 < a then PInf else if a < 0 then NInf else NaN)"

fun num_add :: "jsnum \<Rightarrow> jsnum \<Rightarrow> jsnum" where
  "num_add (Fin a) (Fin b) = Fin (a + b)"
| "num_add NaN _ = NaN"
| "num_add _ NaN = NaN"
| "num_add PInf NInf = NaN"
| "num_add NInf PInf = NaN"
| "num_add PInf _ = PInf"
| "num_add _ PInf = PInf"
| "num_add NInf _ = NInf"
| "num_add _ NInf = NInf"

fun num_neg :: "jsnum \<Rightarrow> jsnum" where
  "num_neg (Fin a) = Fin (- a)"
| "num_neg PInf = NInf"
| "num_neg NInf = PInf"
| "num_neg NaN = NaN"

definition num_sub :: "jsnum \<Rightarrow> jsnum \<Rightarrow> jsnum" where
  "num_sub a b = num_add a (num_neg b)"

fun num_less :: "jsnum \<Rightarrow> jsnum \<Rightarrow> bool" where
  "num_less (Fin a) (Fin b) = (a < b)"
| "num_less NaN _ = False"
| "num_less _ NaN = False"
| "num_less NInf NInf = False"
| "num_less NInf _ = True"
| "num_less _ NInf = False"
| "num_less PInf _ = False"
| "num_less _ PInf = True"

text \<open>
  What the library sort makes of a comparator's result: only its sign counts, and NaN
  counts as zero.
\<close>

fun comparator_result :: "jsnum \<Rightarrow> real" where
  "comparator_result (Fin a) = a"
| "comparator_result PInf = 1"
| "comparator_result NInf = - 1"
| "comparator_result NaN = 0"

subsection \<open>String primitives\<close>

text \<open>
  \<open>String.prototype.toLowerCase\<close> on the characters with codes 0 to 255: the letters \<open>A\<close>
  to \<open>Z\<close> (codes 65 to 90) and the capital letters of Latin-1 (codes 192 to 222, without
  the multiplication sign 215) get bit 5 set, which adds 32; every other character is
  unchanged.
\<close>

fun lower_char :: "char \<Rightarrow> char" where
  "lower_char (Char b0 b1 b2 b3 b4 b5 b6 b7) =
     (if (CHR ''A'' \<le> Char b0 b1 b2 b3 b4 b5 b6 b7 \<and>
          Char b0 b1 b2 b3 b4 b5 b6 b7 \<le> CHR ''Z'') \<or>
         (CHR 0xC0 \<le> Char b0 b1 b2 b3 b4 b5 b6 b7 \<and>
          Char b0 b1 b2 b3 b4 b5 b6 b7 \<le> CHR 0xDE \<and>
          Char b0 b1 b2 b3 b4 b5 b6 b7 \<noteq> CHR 0xD7)
      then Char b0 b1 b2 b3 b4 True b6 b7
      else Char b0 b1 b2 b3 b4 b5 b6 b7)"

definition toLowerCase :: "string \<Rightarrow> string" where
  "toLowerCase s = map lower_char s"

section \<open>Sorting (algorithms/sorting.ts)\<close>

text \<open>
  \<open>getValue\<close> of both sort classes: a string is lowercased, anything else is returned as
  it is.
\<close>

definition getValue :: "inventoryItem \<Rightarrow> field \<Rightarrow> jsval" where
  "getValue it sortBy =
     (case field_value it sortBy of Str s \<Rightarrow> Str (toLowerCase s) | v \<Rightarrow> v)"

text \<open>
  The operator \<open><=\<close> on two values read from the same property. Two strings compare
  lexicographically by character code, two numbers by value; two objects are both
  converted to the string \<open>[object Object]\<close>, so the test succeeds. A property has one type
  in every item, so operands of different kinds never meet; the last equation only makes
  the function total.
\<close>

fun js_le :: "jsval \<Rightarrow> jsval \<Rightarrow> bool" where
  "js_le (Str a) (Str b) = (a \<le> b)"
| "js_le (Num a) (Num b) = (a \<le> b)"
| "js_le (Obj a) (Obj b) = True"
| "js_le _ _ = False"

text \<open>The two instance counters, threaded through the recursion.\<close>

record counters =
  comparisons :: nat
  swaps :: nat

subsection \<open>MergeSort\<close>

text \<open>
  The \<open>while\<close> loop of \<open>merge\<close>. The two list arguments are the parts of \<open>left\<close> and
  \<open>right\<close> from \<open>leftIndex\<close> and \<open>rightIndex\<close> on; the second equation is the exit of the
  loop followed by the two \<open>concat\<close> calls.
\<close>

fun merge_loop ::
  "field \<Rightarrow> inventoryItem list \<Rightarrow> inventoryItem list \<Rightarrow> inventoryItem list \<Rightarrow> counters
     \<Rightarrow> inventoryItem list \<times> counters" where
  "merge_loop sortBy (l # ls) (r # rs) result c =
     (if js_le (getValue l sortBy) (getValue r sortBy)
      then merge_loop sortBy ls (r # rs) (result @ [l])
             (c\<lparr>comparisons := comparisons c + 1\<rparr>)
      else merge_loop sortBy (l # ls) rs (result @ [r])
             (c\<lparr>comparisons := comparisons c + 1, swaps := swaps c + 1\<rparr>))"
| "merge_loop sortBy left right result c = (result @ left @ right, c)"

definition merge ::
  "inventoryItem list \<Rightarrow> inventoryItem list \<Rightarrow> field \<Rightarrow> counters
     \<Rightarrow> inventoryItem list \<times> counters" where
  "merge left right sortBy c = merge_loop sortBy left right [] c"

fun mergeSort ::
  "inventoryItem list \<Rightarrow> field \<Rightarrow> counters \<Rightarrow> inventoryItem list \<times> counters" where
  "mergeSort arr sortBy c =
     (if length arr \<le> 1 then (arr, c)
      else
        let mid = length arr div 2;
            (left, c1) = mergeSort (take mid arr) sortBy c;
            (right, c2) = mergeSort (drop mid arr) sortBy c1
        in merge left right sortBy c2)"

declare mergeSort.simps [simp del]

record sortResult =
  sortedItems :: "inventoryItem list"
  performance :: algorithmPerformance

definition MergeSort_sort :: "inventoryItem list \<Rightarrow> field \<Rightarrow> sortResult" where
  "MergeSort_sort items sortBy =
     (let (sorted, c) = mergeSort items sortBy \<lparr>comparisons = 0, swaps = 0\<rparr>
      in \<lparr>sortedItems = sorted,
          performance = \<lparr>algorithm = ''Merge Sort'',
                          operation = ''Sort by '' @ field_name sortBy,
                          dataSize = length items,
                          perf_comparisons = Some (comparisons c),
                          perf_swaps = Some (swaps c)\<rparr>\<rparr>)"

text \<open>
  Two auxiliary notions for the verification: the order \<open>merge\<close> decides by, and the list
  its loop builds, as a function of the two inputs alone.
\<close>

definition key_le :: "field \<Rightarrow> inventoryItem \<Rightarrow> inventoryItem \<Rightarrow> bool" where
  "key_le sortBy a b = js_le (getValue a sortBy) (getValue b sortBy)"

fun merge_list :: "field \<Rightarrow> inventoryItem list \<Rightarrow> inventoryItem list \<Rightarrow> inventoryItem list" where
  "merge_list sortBy (l # ls) (r # rs) =
     (if js_le (getValue l sortBy) (getValue r sortBy)
      then l # merge_list sortBy ls (r # rs)
      else r # merge_list sortBy (l # ls) rs)"
| "merge_list sortBy left right = left @ right"

section \<open>The library sort\<close>

text \<open>
  \<open>Array.prototype.sort\<close> is a function of the JavaScript library, not of this
  repository. ECMAScript requires it to be stable and, for a consistent comparator, to
  order \<open>a\<close> before \<open>b\<close> when the comparator is negative on \<open>(a, b)\<close>. The model is stable
  insertion sort: an element goes in front of the first later element that the
  comparator does not put before it. How often the library calls the comparator is left
  open by the standard, so a counter that the comparator increments is a parameter of
  the caller.
\<close>

fun insert_by :: "('a \<Rightarrow> 'a \<Rightarrow> real) \<Rightarrow> 'a \<Rightarrow> 'a list \<Rightarrow> 'a list" where
  "insert_by cmp x [] = [x]"
| "insert_by cmp x (y # ys) =
     (if cmp x y \<le> 0 then x # y # ys else y # insert_by cmp x ys)"

definition array_sort :: "('a \<Rightarrow> 'a \<Rightarrow> real) \<Rightarrow> 'a list \<Rightarrow> 'a list" where
  "array_sort cmp xs = foldr (insert_by cmp) xs []"

section \<open>Searching (BinarySearch and HashMapSearch)\<close>

record searchResult =
  results :: "inventoryItem list"
  search_performance :: algorithmPerformance

text \<open>
  \<open>getValue\<close> of both search classes: a string as it is, anything else through the
  library conversion \<open>String(value)\<close>, which is a parameter \<open>js_String\<close> of the model.
\<close>

definition search_getValue :: "(jsval \<Rightarrow> string) \<Rightarrow> inventoryItem \<Rightarrow> field \<Rightarrow> string" where
  "search_getValue js_String it searchBy =
     (case field_value it searchBy of Str s \<Rightarrow> s | v \<Rightarrow> js_String v)"

subsection \<open>BinarySearch\<close>

text \<open>
  The comparator of the sort (\<open>-1\<close>, \<open>1\<close> or \<open>0\<close>), and the scan of the sorted copy with
  \<open>String.prototype.includes\<close>: containment as a contiguous run of characters.
\<close>

definition BinarySearch_search ::
  "(jsval \<Rightarrow> string) \<Rightarrow> inventoryItem list \<Rightarrow> string \<Rightarrow> field \<Rightarrow> searchResult" where
  "BinarySearch_search js_String items searchTerm searchBy =
     (let sortedItems =
            array_sort
              (\<lambda>a b. let aValue = search_getValue js_String a searchBy;
                         bValue = search_getValue js_String b searchBy
                     in if aValue < bValue then - 1 else if aValue > bValue then 1 else 0)
              items;
          searchValue = toLowerCase searchTerm
      in \<lparr>results =
            filter (\<lambda>it. sublist searchValue (toLowerCase (search_getValue js_String it searchBy)))
              sortedItems,
          search_performance =
            \<lparr>algorithm = ''Binary Search'',
              operation = ''Search by '' @ field_name searchBy,
              dataSize = length items,
              perf_comparisons = Some (length sortedItems),
              perf_swaps = None\<rparr>\<rparr>)"

subsection \<open>HashMapSearch\<close>

text \<open>
  A JavaScript \<open>Map\<close> keeps its keys in insertion order: an association list, read with
  \<open>map_of\<close> and written with \<open>AList.update\<close> (which replaces the value of a key that is
  present and appends a new key at the end).
\<close>

type_synonym fieldMap = "(string \<times> inventoryItem list) list"
type_synonym hashMaps = "(field \<times> fieldMap) list"

text \<open>
  The body of the loop over \<open>i\<close>: create the entry of \<open>substring\<close> if it is missing, and
  push the item unless the entry already holds an item of the same id.
\<close>

definition add_prefix :: "inventoryItem \<Rightarrow> string \<Rightarrow> fieldMap \<Rightarrow> fieldMap" where
  "add_prefix item substring fm =
     (let fm1 = (case map_of fm substring of None \<Rightarrow> AList.update substring [] fm | Some _ \<Rightarrow> fm);
          existingItems = (case map_of fm substring of None \<Rightarrow> [] | Some xs \<Rightarrow> xs)
      in if find (\<lambda>existingItem. item_id existingItem = item_id item) existingItems = None
         then AList.update substring (existingItems @ [item]) fm1
         else fm1)"

text \<open>The loop \<open>for (let i = 1; i <= value.length; i++)\<close> with \<open>value.substring(0, i)\<close>.\<close>

definition index_item :: "(jsval \<Rightarrow> string) \<Rightarrow> field \<Rightarrow> inventoryItem \<Rightarrow> fieldMap \<Rightarrow> fieldMap" where
  "index_item js_String fld item fm =
     (let v = toLowerCase (search_getValue js_String item fld)
      in fold (\<lambda>i. add_prefix item (take i v)) [1..<Suc (length v)] fm)"

definition indexed_fields :: "field list" where
  "indexed_fields = [F_id, F_name, F_category, F_supplier]"

definition build_fieldMap :: "(jsval \<Rightarrow> string) \<Rightarrow> field \<Rightarrow> inventoryItem list \<Rightarrow> fieldMap" where
  "build_fieldMap js_String fld items = fold (index_item js_String fld) items []"

definition buildHashMap :: "(jsval \<Rightarrow> string) \<Rightarrow> inventoryItem list \<Rightarrow> hashMaps \<Rightarrow> hashMaps" where
  "buildHashMap js_String items hm =
     fold (\<lambda>fld. AList.update fld (build_fieldMap js_String fld items)) indexed_fields hm"

definition getTotalItemCount :: "hashMaps \<Rightarrow> nat" where
  "getTotalItemCount hm = (\<Sum>(fld, fm) \<leftarrow> hm. \<Sum>(k, its) \<leftarrow> fm. length its)"

definition HashMapSearch_search :: "hashMaps \<Rightarrow> string \<Rightarrow> field \<Rightarrow> searchResult" where
  "HashMapSearch_search hm searchTerm searchBy =
     (let fieldMap = map_of hm searchBy;
          searchValue = toLowerCase searchTerm
      in \<lparr>results =
            (case fieldMap of
               None \<Rightarrow> []
             | Some fm \<Rightarrow> (case map_of fm searchValue of None \<Rightarrow> [] | Some its \<Rightarrow> its)),
          search_performance =
            \<lparr>algorithm = ''Hash Map Search'',
              operation = ''Search by '' @ field_name searchBy,
              dataSize = getTotalItemCount hm,
              perf_comparisons = Some 1,
              perf_swaps = None\<rparr>\<rparr>)"

text \<open>The map of a new \<open>HashMapSearch\<close>, and the one reached by a sequence of builds.\<close>

definition new_hashMaps :: hashMaps where
  "new_hashMaps = []"

definition after_builds :: "(jsval \<Rightarrow> string) \<Rightarrow> inventoryItem list list \<Rightarrow> hashMaps" where
  "after_builds js_String builds = fold (buildHashMap js_String) builds new_hashMaps"

text \<open>
  The reading of "deduplicated by item id": of the items that share an id the first one
  stays.
\<close>

fun dedup_by_id :: "inventoryItem list \<Rightarrow> inventoryItem list" where
  "dedup_by_id [] = []"
| "dedup_by_id (x # xs) = x # dedup_by_id (filter (\<lambda>y. item_id y \<noteq> item_id x) xs)"

definition lookup_items :: "fieldMap \<Rightarrow> string \<Rightarrow> inventoryItem list" where
  "lookup_items fm k = (case map_of fm k of None \<Rightarrow> [] | Some its \<Rightarrow> its)"

definition push_unique :: "inventoryItem \<Rightarrow> inventoryItem list \<Rightarrow> inventoryItem list" where
  "push_unique item its =
     (if find (\<lambda>e. item_id e = item_id item) its = None then its @ [item] else its)"

text \<open>The shape of every reachable index: maps for indexed fields only, no empty key.\<close>

definition maps_wf :: "hashMaps \<Rightarrow> bool" where
  "maps_wf hm \<longleftrightarrow>
     (\<forall>fld fm. map_of hm fld = Some fm \<longrightarrow> fld \<in> set indexed_fields \<and> map_of fm [] = None)"

section \<open>Space allocation (GreedyBestFit)\<close>

record warehouseSpace =
  space_id :: string
  space_aisle :: string
  space_shelf :: int
  space_position :: int
  capacity :: int
  occupied :: int
  available :: int
  itemId :: "string option"

text \<open>
  Space units are objects that \<open>allocateSpace\<close> mutates in place, and the caller's array
  holds references to them. A reference is an address, the objects live in a store, and
  a list of spaces is a list of addresses, in which one object may occur twice.
\<close>

type_synonym space_ref = nat
type_synonym space_store = "space_ref \<Rightarrow> warehouseSpace"

record spaceAllocation =
  alloc_item :: inventoryItem
  allocatedSpace :: space_ref
  efficiency :: jsnum

text \<open>
  Value density, \<open>value / weight\<close>, as a double, and the comparator
  \<open>bDensity - aDensity\<close>. The library sort uses the sign of the comparator's result only,
  and the rounded difference of two doubles has the sign of their exact difference, so
  the difference is not rounded.
\<close>

definition density :: "inventoryItem \<Rightarrow> jsnum" where
  "density it = num_div (item_value it) (weight it)"

definition density_comparator :: "inventoryItem \<Rightarrow> inventoryItem \<Rightarrow> real" where
  "density_comparator a b = comparator_result (num_sub (density b) (density a))"

text \<open>
  The scan of the candidate pool for one item of quantity \<open>q\<close>. The pair
  \<open>(bestSpace, bestFit)\<close> starts as \<open>(null, Infinity)\<close>, which is \<open>None\<close>; every finite
  waste is below \<open>Infinity\<close>.
\<close>

fun scan_spaces ::
  "space_store \<Rightarrow> int \<Rightarrow> space_ref list \<Rightarrow> (space_ref \<times> int) option \<Rightarrow> (space_ref \<times> int) option" where
  "scan_spaces st q [] best = best"
| "scan_spaces st q (space # rest) best =
     (if q \<le> available (st space) then
        (let wastedSpace = available (st space) - q in
         if (case best of None \<Rightarrow> True | Some (bestSpace, bestFit) \<Rightarrow> wastedSpace < bestFit)
         then scan_spaces st q rest (Some (space, wastedSpace))
         else scan_spaces st q rest best)
      else scan_spaces st q rest best)"

record alloc_state =
  store :: space_store
  spaces :: "space_ref list"
  allocations :: "spaceAllocation list"
  unallocated :: "inventoryItem list"
  alloc_comparisons :: nat

text \<open>
  The body of the loop over the sorted items. \<open>spaces.indexOf(bestSpace)\<close> is the first
  position of the reference, so \<open>splice\<close> removes its first occurrence.
\<close>

definition allocate_item :: "inventoryItem \<Rightarrow> alloc_state \<Rightarrow> alloc_state" where
  "allocate_item item s =
     (let s1 = s\<lparr>alloc_comparisons := alloc_comparisons s + length (spaces s)\<rparr> in
      case scan_spaces (store s) (quantity item) (spaces s) None of
        None \<Rightarrow> s1\<lparr>unallocated := unallocated s @ [item]\<rparr>
      | Some (bestSpace, bestFit) \<Rightarrow>
          (let sp = store s bestSpace;
               eff = (case num_div (of_int (quantity item)) (of_int (capacity sp)) of
                        Fin x \<Rightarrow> double_round (x * 100) | v \<Rightarrow> v);
               sp' = sp\<lparr>available := available sp - quantity item,
                        occupied := occupied sp + quantity item,
                        itemId := Some (item_id item)\<rparr>
           in s1\<lparr>store := (store s)(bestSpace := sp'),
                 spaces := (if available sp' = 0 then remove1 bestSpace (spaces s)
                            else spaces s),
                 allocations := allocations s @
                   [\<lparr>alloc_item = item, allocatedSpace = bestSpace, efficiency = eff\<rparr>]\<rparr>))"

record allocationResult =
  res_allocations :: "spaceAllocation list"
  res_unallocated :: "inventoryItem list"
  alloc_performance :: algorithmPerformance

text \<open>
  \<open>allocateSpace\<close>. Its first argument is the number of calls the library sort makes to
  the comparator, each of which increments \<open>comparisons\<close>. The result comes with the store
  as the call leaves it.
\<close>

definition sortedItems_by_density :: "inventoryItem list \<Rightarrow> inventoryItem list" where
  "sortedItems_by_density items = array_sort density_comparator items"

definition allocation_start :: "nat \<Rightarrow> space_ref list \<Rightarrow> space_store \<Rightarrow> alloc_state" where
  "allocation_start sortCalls availableSpaces st =
     \<lparr>store = st,
      spaces = filter (\<lambda>space. 0 < available (st space)) availableSpaces,
      allocations = [], unallocated = [], alloc_comparisons = sortCalls\<rparr>"

definition allocateSpace ::
  "nat \<Rightarrow> inventoryItem list \<Rightarrow> space_ref list \<Rightarrow> space_store \<Rightarrow> allocationResult \<times> space_store" where
  "allocateSpace sortCalls items availableSpaces st =
     (let s = fold allocate_item (sortedItems_by_density items)
                (allocation_start sortCalls availableSpaces st)
      in (\<lparr>res_allocations = allocations s,
           res_unallocated = unallocated s,
           alloc_performance =
             \<lparr>algorithm = ''Greedy Best-Fit'',
               operation = ''Space Allocation'',
               dataSize = length items,
               perf_comparisons = Some (alloc_comparisons s),
               perf_swaps = None\<rparr>\<rparr>,
          store s))"

text \<open>The invariant of a space unit.\<close>

definition space_ok :: "warehouseSpace \<Rightarrow> bool" where
  "space_ok sp \<longleftrightarrow> occupied sp + available sp = capacity sp \<and> 0 \<le> available sp"

text \<open>A store with the two units of the given capacities and occupations, at addresses 0 and 1.\<close>

definition example_space :: "int \<Rightarrow> int \<Rightarrow> warehouseSpace" where
  "example_space c occ =
     \<lparr>space_id = ''A-1-1'', space_aisle = ''A'', space_shelf = 1, space_position = 1,
      capacity = c, occupied = occ, available = c - occ, itemId = None\<rparr>"

definition example_store :: "warehouseSpace \<Rightarrow> warehouseSpace \<Rightarrow> space_store" where
  "example_store a b = (\<lambda>r. if r = 0 then a else b)"

text \<open>Auxiliary: what the scan knows about the best space so far.\<close>

definition best_ok :: "space_store \<Rightarrow> int \<Rightarrow> (space_ref \<times> int) option \<Rightarrow> bool" where
  "best_ok st q best \<longleftrightarrow>
     (case best of None \<Rightarrow> True
      | Some (b0, w0) \<Rightarrow> q \<le> available (st b0) \<and> w0 = available (st b0) - q)"

definition best_le :: "int \<Rightarrow> (space_ref \<times> int) option \<Rightarrow> bool" where
  "best_le w best \<longleftrightarrow> (case best of None \<Rightarrow> True | Some (b0, w0) \<Rightarrow> w \<le> w0)"

text \<open>
  Auxiliary: an order-preserving map of the numbers other than NaN into the reals, for
  the comparison of densities.
\<close>

fun num_rank :: "jsnum \<Rightarrow> real" where
  "num_rank (Fin a) = arctan a"
| "num_rank PInf = 2"
| "num_rank NInf = - 2"
| "num_rank NaN = 0"

text \<open>
  What one pass of the allocation loop does to the state, in the words of the spec as
  amended: if some space of the pool can hold the item, a space of the pool whose
  leftover \<open>available - quantity\<close> is the smallest among those that can hold it receives
  the item, and its first occurrence leaves the pool exactly when nothing is left in it;
  otherwise the item joins \<open>unallocated\<close> and nothing else changes.
\<close>

definition best_fit_step :: "inventoryItem \<Rightarrow> alloc_state \<Rightarrow> alloc_state \<Rightarrow> bool" where
  "best_fit_step item s s' \<longleftrightarrow>
     (if \<exists>r \<in> set (spaces s). quantity item \<le> available (store s r)
      then \<exists>b \<in> set (spaces s).
             quantity item \<le> available (store s b) \<and>
             (\<forall>r \<in> set (spaces s). quantity item \<le> available (store s r) \<longrightarrow>
                available (store s b) - quantity item \<le> available (store s r) - quantity item) \<and>
             map alloc_item (allocations s') = map alloc_item (allocations s) @ [item] \<and>
             map allocatedSpace (allocations s') = map allocatedSpace (allocations s) @ [b] \<and>
             unallocated s' = unallocated s \<and>
             store s' = (store s)
               (b := (store s b)\<lparr>available := available (store s b) - quantity item,
                                  occupied := occupied (store s b) + quantity item,
                                  itemId := Some (item_id item)\<rparr>) \<and>
             spaces s' = (if available (store s b) - quantity item = 0
                          then remove1 b (spaces s) else spaces s)
      else allocations s' = allocations s \<and> unallocated s' = unallocated s @ [item] \<and>
           store s' = store s \<and> spaces s' = spaces s)"

text \<open>
  A run of the allocation loop over a list of items: one step after the other, from
  the first state to the last.
\<close>

primrec best_fit_run :: "inventoryItem list \<Rightarrow> alloc_state \<Rightarrow> alloc_state \<Rightarrow> bool" where
  "best_fit_run [] s s' \<longleftrightarrow> s' = s"
| "best_fit_run (item # rest) s s' \<longleftrightarrow>
     (\<exists>s1. best_fit_step item s s1 \<and> best_fit_run rest s1 s')"

section \<open>Route planning (algorithms/dijkstra.ts)\<close>

text \<open>
  The two private fields of \<open>DijkstraPathFinder\<close>. A new planner holds two empty arrays.
\<close>

record planner =
  graph :: "jsnum list list"
  locations :: "location list"

definition new_planner :: planner where
  "new_planner = \<lparr>graph = [], locations = []\<rparr>"

text \<open>\<open>s.charCodeAt(0)\<close>: the code of the first character, NaN (\<open>None\<close>) for the empty string.\<close>

definition charCodeAt0 :: "string \<Rightarrow> int option" where
  "charCodeAt0 s = (case s of [] \<Rightarrow> None | c # _ \<Rightarrow> Some (of_char c))"

definition calculateDistance :: "location \<Rightarrow> location \<Rightarrow> jsnum" where
  "calculateDistance loc1 loc2 =
     (case (charCodeAt0 (aisle loc1), charCodeAt0 (aisle loc2)) of
        (Some c1, Some c2) \<Rightarrow>
          (let aisle1 = c1 - 64;
               aisle2 = c2 - 64;
               aisleDistance = \<bar>aisle1 - aisle2\<bar> * 10;
               shelfDistance = \<bar>shelf loc1 - shelf loc2\<bar> * 5;
               positionDistance = \<bar>position loc1 - position loc2\<bar> * 2
           in Fin (of_int (aisleDistance + shelfDistance + positionDistance)))
      | _ \<Rightarrow> NaN)"

text \<open>\<open>g[i][j] = v\<close> on an array of arrays.\<close>

definition set_cell :: "'a list list \<Rightarrow> nat \<Rightarrow> nat \<Rightarrow> 'a \<Rightarrow> 'a list list" where
  "set_cell g i j v = g[i := (g ! i)[j := v]]"

text \<open>
  \<open>initializeWarehouseGraph\<close>: the location array is stored as it is given; the matrix
  starts as \<open>n\<close> rows of \<open>n\<close> times \<open>Infinity\<close>, gets its diagonal, and then both cells of
  every pair \<open>i < j\<close>. The planner it is called on contributes nothing to the result.
\<close>

definition fill_row :: "location list \<Rightarrow> nat \<Rightarrow> jsnum list list \<Rightarrow> jsnum list list" where
  "fill_row locs i g =
     fold (\<lambda>j g. let distance = calculateDistance (locs ! i) (locs ! j)
                  in set_cell (set_cell g i j distance) j i distance)
       [i + 1..<length locs] g"

definition initializeWarehouseGraph :: "location list \<Rightarrow> planner \<Rightarrow> planner" where
  "initializeWarehouseGraph locs p =
     (let n = length locs;
          g0 = replicate n (replicate n PInf);
          g1 = fold (\<lambda>i g. set_cell g i i (Fin 0)) [0..<n] g0;
          g2 = fold (fill_row locs) [0..<n] g1
      in \<lparr>graph = g2, locations = locs\<rparr>)"

subsection \<open>The single-pair primitive\<close>

record dijkstra_state =
  distances :: "jsnum list"
  previous :: "nat option list"
  visited :: "bool list"
  visitedNodes :: "nat list"

text \<open>The scan for the unvisited node of minimum distance; \<open>None\<close> is \<open>currentNode = -1\<close>.\<close>

fun find_min ::
  "jsnum list \<Rightarrow> bool list \<Rightarrow> nat list \<Rightarrow> jsnum \<times> nat option \<Rightarrow> jsnum \<times> nat option" where
  "find_min ds vis [] acc = acc"
| "find_min ds vis (j # js) (minDistance, currentNode) =
     (if \<not> vis ! j \<and> num_less (ds ! j) minDistance
      then find_min ds vis js (ds ! j, Some j)
      else find_min ds vis js (minDistance, currentNode))"

text \<open>The loop over the neighbours of \<open>currentNode\<close>.\<close>

fun relax ::
  "jsnum list list \<Rightarrow> nat \<Rightarrow> bool list \<Rightarrow> nat list \<Rightarrow> jsnum list \<times> nat option list
     \<Rightarrow> jsnum list \<times> nat option list" where
  "relax g c vis [] dp = dp"
| "relax g c vis (neighbor # rest) (ds, pv) =
     (if \<not> vis ! neighbor \<and> g ! c ! neighbor \<noteq> PInf then
        (let newDistance = num_add (ds ! c) (g ! c ! neighbor) in
         if num_less newDistance (ds ! neighbor)
         then relax g c vis rest (ds[neighbor := newDistance], pv[neighbor := Some c])
         else relax g c vis rest (ds, pv))
      else relax g c vis rest (ds, pv))"

text \<open>
  The loop \<open>for (let i = 0; i < n; i++)\<close>; the fourth argument is the number of rounds
  left. Both \<open>break\<close>s return the state.
\<close>

fun dijkstra_loop :: "jsnum list list \<Rightarrow> nat \<Rightarrow> nat \<Rightarrow> nat \<Rightarrow> dijkstra_state \<Rightarrow> dijkstra_state" where
  "dijkstra_loop g n e 0 s = s"
| "dijkstra_loop g n e (Suc k) s =
     (case snd (find_min (distances s) (visited s) [0..<n] (PInf, None)) of
        None \<Rightarrow> s
      | Some currentNode \<Rightarrow>
          (let s1 = s\<lparr>visited := (visited s)[currentNode := True],
                       visitedNodes := visitedNodes s @ [currentNode]\<rparr>
           in if currentNode = e then s1
              else (let (ds, pv) =
                          relax g currentNode (visited s1) [0..<n] (distances s1, previous s1)
                    in dijkstra_loop g n e k (s1\<lparr>distances := ds, previous := pv\<rparr>))))"

text \<open>
  The reconstruction \<open>while (current !== null)\<close> follows the predecessor links for as
  long as there are any, so it is a partial function: \<open>None\<close> means that it does not
  return. Outside the array \<open>previous[current]\<close> is \<open>undefined\<close>, which is not \<open>null\<close>, and
  the loop goes on for ever.
\<close>

partial_function (option) reconstruct ::
  "nat option list \<Rightarrow> nat option \<Rightarrow> nat list \<Rightarrow> nat list option" where
  "reconstruct pv current path =
     (case current of
        None \<Rightarrow> Some path
      | Some c \<Rightarrow> if c < length pv then reconstruct pv (pv ! c) (c # path) else None)"

record dijkstraResult =
  d_path :: "nat list"
  d_distance :: jsnum
  d_visitedNodes :: "nat list"

text \<open>
  \<open>dijkstra\<close> is private and is called with indices of the location array only, which are
  below \<open>n\<close>.
\<close>

definition dijkstra :: "jsnum list list \<Rightarrow> nat \<Rightarrow> nat \<Rightarrow> dijkstraResult option" where
  "dijkstra g start e =
     (let n = length g;
          s0 = \<lparr>distances = (replicate n PInf)[start := Fin 0],
                previous = replicate n None,
                visited = replicate n False,
                visitedNodes = []\<rparr>;
          s = dijkstra_loop g n e n s0
      in case reconstruct (previous s) (Some e) [] of
           None \<Rightarrow> None
         | Some path \<Rightarrow>
             Some \<lparr>d_path = path, d_distance = distances s ! e,
                   d_visitedNodes = visitedNodes s\<rparr>)"

subsection \<open>The picking route\<close>

text \<open>\<open>Array.prototype.findIndex\<close>; \<open>None\<close> is the result \<open>-1\<close>.\<close>

fun findIndex :: "('a \<Rightarrow> bool) \<Rightarrow> 'a list \<Rightarrow> nat option" where
  "findIndex P [] = None"
| "findIndex P (x # xs) = (if P x then Some 0 else map_option Suc (findIndex P xs))"

definition findLocationIndex :: "planner \<Rightarrow> location \<Rightarrow> nat option" where
  "findLocationIndex p loc' =
     findIndex (\<lambda>loc. aisle loc = aisle loc' \<and> shelf loc = shelf loc' \<and>
                      position loc = position loc') (locations p)"

datatype route_error = InvalidLocation

record pathResult =
  path :: "nat list"
  totalDistance :: jsnum
  route_visitedNodes :: "nat list"
  route_performance :: algorithmPerformance

record picking_state =
  pk_path :: "nat list"
  pk_visited :: "nat list"
  pk_visitedNodes :: "nat list"
  pk_totalDistance :: jsnum
  pk_currentLocation :: nat
  pk_comparisons :: nat

text \<open>
  The search for the nearest unvisited destination. The set \<open>visited\<close> is a list without
  repetitions. A call of \<open>dijkstra\<close> that does not return leaves the whole search without
  a result.
\<close>

fun nearest_scan ::
  "jsnum list list \<Rightarrow> nat \<Rightarrow> nat list \<Rightarrow> nat list \<Rightarrow> nat option \<times> jsnum
     \<Rightarrow> (nat option \<times> jsnum) option" where
  "nearest_scan g cur vis [] acc = Some acc"
| "nearest_scan g cur vis (destIndex # rest) (nearestLocation, nearestDistance) =
     (if destIndex \<notin> set vis then
        (case dijkstra g cur destIndex of
           None \<Rightarrow> None
         | Some r \<Rightarrow>
             if num_less (d_distance r) nearestDistance
             then nearest_scan g cur vis rest (Some destIndex, d_distance r)
             else nearest_scan g cur vis rest (nearestLocation, nearestDistance))
      else nearest_scan g cur vis rest (nearestLocation, nearestDistance))"

partial_function (option) picking_loop ::
  "jsnum list list \<Rightarrow> nat list \<Rightarrow> picking_state \<Rightarrow> picking_state option" where
  "picking_loop g destIndices s =
     (if length (pk_visited s) \<le> length destIndices then
        (case nearest_scan g (pk_currentLocation s) (pk_visited s) destIndices (None, PInf) of
           None \<Rightarrow> None
         | Some (nearestLocation, nearestDistance) \<Rightarrow>
             (let s1 = s\<lparr>pk_comparisons := pk_comparisons s + length destIndices\<rparr> in
              case nearestLocation of
                None \<Rightarrow> Some s1
              | Some nearest \<Rightarrow>
                  (case dijkstra g (pk_currentLocation s) nearest of
                     None \<Rightarrow> None
                   | Some result \<Rightarrow>
                       picking_loop g destIndices
                         (s1\<lparr>pk_path := pk_path s @ tl (d_path result),
                              pk_visitedNodes := pk_visitedNodes s @ d_visitedNodes result,
                              pk_totalDistance :=
                                num_add (pk_totalDistance s) (d_distance result),
                              pk_visited := List.insert nearest (pk_visited s),
                              pk_currentLocation := nearest\<rparr>))))
      else Some s)"

text \<open>
  \<open>findOptimalPickingPath\<close>. The outcome is \<open>None\<close> if the call does not return,
  \<open>Inl\<close> of the error if it throws and \<open>Inr\<close> of the result otherwise; it is paired with
  the planner as the call leaves it, which no statement of the method assigns to.
\<close>

definition findOptimalPickingPath ::
  "planner \<Rightarrow> location \<Rightarrow> location list \<Rightarrow> ((route_error + pathResult) \<times> planner) option" where
  "findOptimalPickingPath p startLocation destinationLocations =
     (let startIndex = findLocationIndex p startLocation;
          destIndices = map (findLocationIndex p) destinationLocations
      in case startIndex of
           None \<Rightarrow> Some (Inl InvalidLocation, p)
         | Some start \<Rightarrow>
             if None \<in> set destIndices then Some (Inl InvalidLocation, p)
             else
               (case picking_loop (graph p) (map the destIndices)
                       \<lparr>pk_path = [start], pk_visited = [start], pk_visitedNodes = [start],
                        pk_totalDistance = Fin 0, pk_currentLocation = start,
                        pk_comparisons = 0\<rparr> of
                  None \<Rightarrow> None
                | Some s \<Rightarrow>
                    Some (Inr \<lparr>path = pk_path s,
                               totalDistance = pk_totalDistance s,
                               route_visitedNodes = pk_visitedNodes s,
                               route_performance =
                                 \<lparr>algorithm = ''Dijkstra's Algorithm'',
                                   operation = ''Shortest Path Finding'',
                                   dataSize = length (locations p),
                                   perf_comparisons = Some (pk_comparisons s),
                                   perf_swaps = None\<rparr>\<rparr>, p)))"

text \<open>Auxiliary: a matrix of \<open>n\<close> rows of length \<open>n\<close>.\<close>

definition square :: "nat \<Rightarrow> 'a list list \<Rightarrow> bool" where
  "square n g \<longleftrightarrow> length g = n \<and> (\<forall>i < n. length (g ! i) = n)"

text \<open>
  The number the source gives an aisle: the code of its first character minus 64, so
  that \<open>A\<close> is 1, \<open>B\<close> is 2 and \<open>Z\<close> is 26. Three locations of the example scenario.
\<close>

definition aisle_number :: "string \<Rightarrow> int" where
  "aisle_number s = of_char (hd s) - 64"

definition loc_A11 :: location where
  "loc_A11 = \<lparr>aisle = ''A'', shelf = 1, position = 1\<rparr>"

definition loc_A12 :: location where
  "loc_A12 = \<lparr>aisle = ''A'', shelf = 1, position = 2\<rparr>"

definition loc_B21 :: location where
  "loc_B21 = \<lparr>aisle = ''B'', shelf = 2, position = 1\<rparr>"


text \<open>Structural equality of a location with one of the graph.\<close>

definition known_location :: "planner \<Rightarrow> location \<Rightarrow> bool" where
  "known_location p l \<longleftrightarrow>
     (\<exists>loc \<in> set (locations p).
        aisle loc = aisle l \<and> shelf loc = shelf l \<and> position loc = position l)"

subsection \<open>References for the shortest distance\<close>






section \<open>QuickSort (algorithms/sorting.ts)\<close>

text \<open>
  The array is sorted in place; the model passes it through. Indices are integers:
  \<open>i\<close> starts at \<open>low - 1\<close>, and \<open>sort\<close> calls \<open>quickSort\<close> with \<open>high = -1\<close> on an empty
  array. Within \<open>sort\<close> every index that is read lies inside the array.
\<close>

definition swap :: "'a list \<Rightarrow> int \<Rightarrow> int \<Rightarrow> 'a list" where
  "swap arr i j = arr[nat i := arr ! nat j, nat j := arr ! nat i]"

text \<open>The \<open>for\<close> loop of \<open>partition\<close>, from \<open>j\<close> on.\<close>

function partition_loop ::
  "field \<Rightarrow> jsval \<Rightarrow> int \<Rightarrow> int \<Rightarrow> inventoryItem list \<times> int \<times> counters
     \<Rightarrow> inventoryItem list \<times> int \<times> counters" where
  "partition_loop sortBy pivot high j (arr, i, c) =
     (if j < high then
        (let c1 = c\<lparr>comparisons := comparisons c + 1\<rparr> in
         if js_le (getValue (arr ! nat j) sortBy) pivot
         then partition_loop sortBy pivot high (j + 1)
                (swap arr (i + 1) j, i + 1,
                 if i + 1 \<noteq> j then c1\<lparr>swaps := swaps c1 + 1\<rparr> else c1)
         else partition_loop sortBy pivot high (j + 1) (arr, i, c1))
      else (arr, i, c))"
  by pat_completeness auto
termination
  by (relation "measure (\<lambda>(sortBy, pivot, high, j, s). nat (high - j))") auto

declare partition_loop.simps [simp del]

definition partition ::
  "inventoryItem list \<Rightarrow> int \<Rightarrow> int \<Rightarrow> field \<Rightarrow> counters
     \<Rightarrow> inventoryItem list \<times> int \<times> counters" where
  "partition arr low high sortBy c =
     (let pivot = getValue (arr ! nat high) sortBy;
          (arr1, i, c1) = partition_loop sortBy pivot high low (arr, low - 1, c)
      in (swap arr1 (i + 1) high, i + 1,
          if i + 1 \<noteq> high then c1\<lparr>swaps := swaps c1 + 1\<rparr> else c1))"

lemma partition_loop_index:
  "i < j \<Longrightarrow> j \<le> high \<Longrightarrow>
   i \<le> fst (snd (partition_loop sortBy pivot high j (arr, i, c))) \<and>
   fst (snd (partition_loop sortBy pivot high j (arr, i, c))) < high"
proof (induction "nat (high - j)" arbitrary: j arr i c)
  case 0
  then have "\<not> j < high" by simp
  then have "partition_loop sortBy pivot high j (arr, i, c) = (arr, i, c)"
    by (subst partition_loop.simps) simp
  with 0 show ?case by simp
next
  case (Suc k)
  from Suc(2) have jh: "j < high" by simp
  from Suc(2) have k: "k = nat (high - (j + 1))" by simp
  have next_round: "i2 \<le> fst (snd (partition_loop sortBy pivot high (j + 1) (arr2, i2, c2))) \<and>
        fst (snd (partition_loop sortBy pivot high (j + 1) (arr2, i2, c2))) < high"
    if "i2 < j + 1" for arr2 i2 c2
    using Suc(1)[OF k that] jh by simp
  show ?case
  proof (cases "js_le (getValue (arr ! nat j) sortBy) pivot")
    case True
    define A where "A = swap arr (i + 1) j"
    define C where "C = (if i + 1 \<noteq> j
             then c\<lparr>comparisons := comparisons c + 1\<rparr>
                    \<lparr>swaps := swaps (c\<lparr>comparisons := comparisons c + 1\<rparr>) + 1\<rparr>
             else c\<lparr>comparisons := comparisons c + 1\<rparr>)"
    have eq: "partition_loop sortBy pivot high j (arr, i, c) =
          partition_loop sortBy pivot high (j + 1) (A, i + 1, C)"
      unfolding A_def C_def
      by (subst partition_loop.simps) (simp only: jh True if_True Let_def)
    have "i + 1 < j + 1" using Suc(3) by simp
    from next_round[OF this, of A C] show ?thesis
      unfolding eq by linarith
  next
    case False
    define C where "C = c\<lparr>comparisons := comparisons c + 1\<rparr>"
    have eq: "partition_loop sortBy pivot high j (arr, i, c) =
          partition_loop sortBy pivot high (j + 1) (arr, i, C)"
      unfolding C_def
      by (subst partition_loop.simps) (simp only: jh False if_True if_False Let_def)
    have "i < j + 1" using Suc(3) by simp
    from next_round[OF this, of arr C] show ?thesis
      unfolding eq by linarith
  qed
qed

lemma partition_index:
  "partition arr low high sortBy c = (arr', p, c') \<Longrightarrow> low \<le> high \<Longrightarrow> low \<le> p \<and> p \<le> high"
proof -
  assume a: "partition arr low high sortBy c = (arr', p, c')" and lh: "low \<le> high"
  obtain arr1 i c1 where
    l: "partition_loop (sortBy) (getValue (arr ! nat high) sortBy) high low (arr, low - 1, c)
          = (arr1, i, c1)"
    by (metis prod_cases3)
  from partition_loop_index[of "low - 1" low high sortBy "getValue (arr ! nat high) sortBy" arr c] l lh
  have "low - 1 \<le> i \<and> i < high" by simp
  moreover from a l have "p = i + 1" by (simp add: partition_def Let_def)
  ultimately show ?thesis by simp
qed

function quickSort ::
  "inventoryItem list \<Rightarrow> int \<Rightarrow> int \<Rightarrow> field \<Rightarrow> counters \<Rightarrow> inventoryItem list \<times> counters" where
  "quickSort arr low high sortBy c =
     (if low < high then
        (let (arr1, pivotIndex, c1) = partition arr low high sortBy c;
             (arr2, c2) = quickSort arr1 low (pivotIndex - 1) sortBy c1
         in quickSort arr2 (pivotIndex + 1) high sortBy c2)
      else (arr, c))"
  by pat_completeness auto
termination
proof (relation "measure (\<lambda>(arr, low, high, sortBy, c). nat (high - low + 1))")
  show "wf (measure (\<lambda>(arr, low, high, sortBy, c). nat (high - low + 1)))"
    by simp
next
  fix arr :: "inventoryItem list" and low high :: int and sortBy c x arr1 y pivotIndex c1
  assume "low < high" and "x = partition arr low high sortBy c"
    and "(arr1, y) = x" and "(pivotIndex, c1) = y"
  then have "partition arr low high sortBy c = (arr1, pivotIndex, c1)" by simp
  from partition_index[OF this] \<open>low < high\<close> have "low \<le> pivotIndex \<and> pivotIndex \<le> high"
    by simp
  then show "((arr1, low, pivotIndex - 1, sortBy, c1), (arr, low, high, sortBy, c))
        \<in> measure (\<lambda>(arr, low, high, sortBy, c). nat (high - low + 1))"
    by simp
next
  fix arr :: "inventoryItem list" and low high :: int and sortBy c x arr1 y pivotIndex c1 z arr2 c2
  assume "low < high" and "x = partition arr low high sortBy c"
    and "(arr1, y) = x" and "(pivotIndex, c1) = y"
  then have "partition arr low high sortBy c = (arr1, pivotIndex, c1)" by simp
  from partition_index[OF this] \<open>low < high\<close> have "low \<le> pivotIndex \<and> pivotIndex \<le> high"
    by simp
  then show "((arr2, pivotIndex + 1, high, sortBy, c2), (arr, low, high, sortBy, c))
        \<in> measure (\<lambda>(arr, low, high, sortBy, c). nat (high - low + 1))"
    by simp
qed

declare quickSort.simps [simp del]

definition QuickSort_sort :: "inventoryItem list \<Rightarrow> field \<Rightarrow> sortResult" where
  "QuickSort_sort items sortBy =
     (let (sorted, c) = quickSort items 0 (int (length items) - 1) sortBy
                          \<lparr>comparisons = 0, swaps = 0\<rparr>
      in \<lparr>sortedItems = sorted,
          performance = \<lparr>algorithm = ''Quick Sort'',
                          operation = ''Sort by '' @ field_name sortBy,
                          dataSize = length items,
                          perf_comparisons = Some (comparisons c),
                          perf_swaps = Some (swaps c)\<rparr>\<rparr>)"

section \<open>Value optimization (KnapsackOptimization)\<close>

text \<open>
  The capacity is an integer. \<open>Array(capacity + 1)\<close> throws a \<open>RangeError\<close> when the
  length is not an array length, that is when it is negative or above \<open>2 ^ 32 - 1\<close>. The
  table has at least one row, so the call is always made. How much memory an engine has
  for an array of a valid length is outside the model.
\<close>

datatype knapsack_error = RangeError

text \<open>
  Reading an array at an index outside it gives \<open>undefined\<close> (\<open>None\<close>); in arithmetic
  \<open>undefined\<close> becomes NaN. \<open>Math.max\<close> is NaN as soon as one argument is, and \<open>!==\<close>
  holds between NaN and anything, fails between \<open>undefined\<close> and \<open>undefined\<close>.
\<close>

definition read_cell :: "jsnum list \<Rightarrow> int \<Rightarrow> jsnum option" where
  "read_cell row w = (if 0 \<le> w \<and> w < int (length row) then Some (row ! nat w) else None)"

fun to_number :: "jsnum option \<Rightarrow> jsnum" where
  "to_number None = NaN"
| "to_number (Some v) = v"

fun num_max :: "jsnum \<Rightarrow> jsnum \<Rightarrow> jsnum" where
  "num_max NaN _ = NaN"
| "num_max _ NaN = NaN"
| "num_max a b = (if num_less a b then b else a)"

fun strict_neq :: "jsnum option \<Rightarrow> jsnum option \<Rightarrow> bool" where
  "strict_neq None None = False"
| "strict_neq (Some NaN) _ = True"
| "strict_neq _ (Some NaN) = True"
| "strict_neq a b = (a \<noteq> b)"

text \<open>
  The cell \<open>dp[i][w]\<close> for \<open>w\<close> from 1 to the capacity, from the row above (\<open>upper\<close>), the rounded
  weight and the value of item \<open>i\<close>. In this range \<open>dp[i - 1][w]\<close> is inside the row;
  \<open>dp[i - 1][w - weight]\<close> is not when the rounded weight is negative.
\<close>

definition dp_cell :: "jsnum list \<Rightarrow> int \<Rightarrow> real \<Rightarrow> int \<Rightarrow> jsnum" where
  "dp_cell upper wt v w =
     (if wt \<le> w
      then (let includeValue = num_add (Fin v) (to_number (read_cell upper (w - wt)));
                excludeValue = to_number (read_cell upper w)
            in num_max includeValue excludeValue)
      else to_number (read_cell upper w))"

text \<open>
  A row of the table has the cells 0 to \<open>capacity\<close> (none if the capacity is \<open>-1\<close>). Cell 0
  keeps the zero it was created with, since the loop over \<open>w\<close> starts at 1; every other cell
  is assigned once and depends on the row upper only.
\<close>

definition dp_row :: "jsnum list \<Rightarrow> inventoryItem \<Rightarrow> int \<Rightarrow> jsnum list" where
  "dp_row upper item cap =
     map (\<lambda>w. if w = 0 then Fin 0
               else dp_cell upper \<lceil>weight item\<rceil> (item_value item) w) [0..cap]"

fun dp_rows :: "jsnum list \<Rightarrow> inventoryItem list \<Rightarrow> int \<Rightarrow> jsnum list list" where
  "dp_rows upper [] cap = []"
| "dp_rows upper (item # rest) cap =
     (let row = dp_row upper item cap in row # dp_rows row rest cap)"

definition dp_table :: "inventoryItem list \<Rightarrow> int \<Rightarrow> jsnum list list" where
  "dp_table items cap =
     (let row0 = map (\<lambda>w. Fin 0) [0..cap] in row0 # dp_rows row0 items cap)"

text \<open>
  The backtracking loop \<open>for (let i = n; i > 0 && w > 0; i--)\<close>; the third argument is
  \<open>i\<close>, and the selected items are collected in the order of the pushes.
\<close>

fun backtrack ::
  "jsnum list list \<Rightarrow> inventoryItem list \<Rightarrow> nat \<Rightarrow> int \<Rightarrow> inventoryItem list \<times> real \<times> nat
     \<Rightarrow> inventoryItem list \<times> real \<times> nat" where
  "backtrack dp items 0 w acc = acc"
| "backtrack dp items (Suc k) w (selected, weight_sum, cmp) =
     (if 0 < w then
        (if strict_neq (read_cell (dp ! Suc k) w) (read_cell (dp ! k) w)
         then backtrack dp items k (w - \<lceil>weight (items ! k)\<rceil>)
                (selected @ [items ! k], weight_sum + weight (items ! k), cmp + 1)
         else backtrack dp items k w (selected, weight_sum, cmp + 1))
      else (selected, weight_sum, cmp))"

record knapsackResult =
  selectedItems :: "inventoryItem list"
  totalValue :: "jsnum option"
  totalWeight :: real
  knapsack_performance :: algorithmPerformance

definition optimizeValue :: "inventoryItem list \<Rightarrow> int \<Rightarrow> knapsack_error + knapsackResult" where
  "optimizeValue items cap =
     (if cap + 1 < 0 \<or> 4294967295 < cap + 1 then Inl RangeError
      else
        (let n = length items;
             dp = dp_table items cap;
             (selected, weight_sum, cmp) = backtrack dp items n cap ([], 0, 0)
         in Inr \<lparr>selectedItems = rev selected,
                 totalValue = read_cell (dp ! n) cap,
                 totalWeight = weight_sum,
                 knapsack_performance =
                   \<lparr>algorithm = ''0/1 Knapsack'',
                     operation = ''Value Optimization'',
                     dataSize = length items,
                     perf_comparisons = Some (n * nat cap + cmp),
                     perf_swaps = None\<rparr>\<rparr>))"

text \<open>
  The reference of the claim: all sub-selections of the item list (in list order), those
  whose rounded weights sum to at most the capacity, and the largest total value among
  them.
\<close>

definition rounded_weight :: "inventoryItem list \<Rightarrow> int" where
  "rounded_weight sel = (\<Sum>it \<leftarrow> sel. \<lceil>weight it\<rceil>)"

definition selection_value :: "inventoryItem list \<Rightarrow> real" where
  "selection_value sel = (\<Sum>it \<leftarrow> sel. item_value it)"

definition feasible :: "inventoryItem list \<Rightarrow> int \<Rightarrow> inventoryItem list list" where
  "feasible items cap = filter (\<lambda>sel. rounded_weight sel \<le> cap) (subseqs items)"

definition brute_force_value :: "inventoryItem list \<Rightarrow> int \<Rightarrow> real" where
  "brute_force_value items cap = Max (set (map selection_value (feasible items cap)))"

section \<open>Verification: merge sort\<close>

lemma key_le_total: "key_le f a b \<or> key_le f b a"
  by (cases f) (auto simp: key_le_def getValue_def)

lemma key_le_refl: "key_le f a a"
  using key_le_total by blast

lemma key_le_trans: "key_le f a b \<Longrightarrow> key_le f b c \<Longrightarrow> key_le f a c"
  by (cases f) (auto simp: key_le_def getValue_def)

lemma key_le_cong: "getValue b f = getValue c f \<Longrightarrow> key_le f a b = key_le f a c"
  by (simp add: key_le_def)

lemma merge_loop_list:
  "fst (merge_loop f left right result c) = result @ merge_list f left right"
  by (induction f left right result c rule: merge_loop.induct) simp_all

lemma fst_merge: "fst (merge left right f c) = merge_list f left right"
  by (simp add: merge_def merge_loop_list)

lemma mset_merge_list: "mset (merge_list f xs ys) = mset xs + mset ys"
  by (induction f xs ys rule: merge_list.induct) simp_all

lemma set_merge_list: "set (merge_list f xs ys) = set xs \<union> set ys"
  by (induction f xs ys rule: merge_list.induct) auto

lemma sorted_merge_list:
  "sorted_wrt (key_le f) xs \<Longrightarrow> sorted_wrt (key_le f) ys \<Longrightarrow>
   sorted_wrt (key_le f) (merge_list f xs ys)"
proof (induction f xs ys rule: merge_list.induct)
  case (1 f l ls r rs)
  show ?case
  proof (cases "key_le f l r")
    case True
    have "\<forall>x \<in> set (r # rs). key_le f l x"
      using True "1.prems"(2) key_le_trans by auto
    with True 1 show ?thesis
      by (auto simp: key_le_def set_merge_list)
  next
    case False
    then have rl: "key_le f r l" using key_le_total by blast
    have "\<forall>x \<in> set (l # ls). key_le f r x"
      using rl "1.prems"(1) key_le_trans by auto
    with False 1 show ?thesis
      by (auto simp: key_le_def set_merge_list)
  qed
qed simp_all

lemma stable_merge_list:
  "sorted_wrt (key_le f) xs \<Longrightarrow>
   filter (\<lambda>x. getValue x f = k) (merge_list f xs ys) =
   filter (\<lambda>x. getValue x f = k) xs @ filter (\<lambda>x. getValue x f = k) ys"
proof (induction f xs ys rule: merge_list.induct)
  case (1 f l ls r rs)
  show ?case
  proof (cases "key_le f l r")
    case True
    with 1 show ?thesis by (simp add: key_le_def)
  next
    case False
    have none: "getValue r f = k \<Longrightarrow> filter (\<lambda>x. getValue x f = k) (l # ls) = []"
    proof -
      assume rk: "getValue r f = k"
      have "\<forall>x \<in> set (l # ls). getValue x f \<noteq> k"
      proof
        fix x assume "x \<in> set (l # ls)"
        then have "x = l \<or> key_le f l x" using "1.prems" by auto
        then show "getValue x f \<noteq> k"
          using False rk key_le_cong[of x f r l] key_le_refl[of f l] by (auto simp: key_le_def)
      qed
      then show ?thesis by (simp add: filter_empty_conv)
    qed
    from False 1 have
      "filter (\<lambda>x. getValue x f = k) (merge_list f (l # ls) (r # rs)) =
       filter (\<lambda>x. getValue x f = k) [r] @ filter (\<lambda>x. getValue x f = k) (l # ls)
         @ filter (\<lambda>x. getValue x f = k) rs"
      by (simp add: key_le_def)
    then show ?thesis using none by (cases "getValue r f = k") auto
  qed
qed simp_all

lemma mergeSort_props:
  "mset (fst (mergeSort arr f c)) = mset arr \<and>
   sorted_wrt (key_le f) (fst (mergeSort arr f c)) \<and>
   (\<forall>k. filter (\<lambda>x. getValue x f = k) (fst (mergeSort arr f c)) =
        filter (\<lambda>x. getValue x f = k) arr)"
proof (induction arr f c rule: mergeSort.induct)
  case (1 arr f c)
  show ?case
  proof (cases "length arr \<le> 1")
    case True
    then have "sorted_wrt (key_le f) arr"
      by (cases arr) (auto simp: le_Suc_eq)
    with True show ?thesis by (simp add: mergeSort.simps[of arr])
  next
    case False
    define mid where "mid = length arr div 2"
    obtain left c1 where L: "mergeSort (take mid arr) f c = (left, c1)"
      by (cases "mergeSort (take mid arr) f c")
    obtain right c2 where R: "mergeSort (drop mid arr) f c1 = (right, c2)"
      by (cases "mergeSort (drop mid arr) f c1")
    have ihL: "mset left = mset (take mid arr)" "sorted_wrt (key_le f) left"
      "\<And>k. filter (\<lambda>x. getValue x f = k) left = filter (\<lambda>x. getValue x f = k) (take mid arr)"
      using "1.IH"(1)[OF False mid_def] L by auto
    have ihR: "mset right = mset (drop mid arr)" "sorted_wrt (key_le f) right"
      "\<And>k. filter (\<lambda>x. getValue x f = k) right = filter (\<lambda>x. getValue x f = k) (drop mid arr)"
      using "1.IH"(2)[OF False mid_def L[symmetric] refl] R by auto
    have res: "fst (mergeSort arr f c) = merge_list f left right"
      using False L R by (simp add: mergeSort.simps[of arr] mid_def[symmetric] fst_merge)
    have "mset (merge_list f left right) = mset (take mid arr @ drop mid arr)"
      by (simp add: mset_merge_list ihL ihR del: append_take_drop_id)
    moreover have "\<And>k. filter (\<lambda>x. getValue x f = k) (merge_list f left right) =
        filter (\<lambda>x. getValue x f = k) (take mid arr @ drop mid arr)"
      by (simp add: stable_merge_list ihL ihR del: append_take_drop_id)
    ultimately show ?thesis
      using res sorted_merge_list[OF ihL(2) ihR(2)] by simp
  qed
qed

text \<open>The character codes of a lowercased string.\<close>

lemma lower_char_code:
  "(of_char (lower_char c) :: nat) =
     (if (65 \<le> (of_char c :: nat) \<and> (of_char c :: nat) \<le> 90) \<or>
         (192 \<le> (of_char c :: nat) \<and> (of_char c :: nat) \<le> 222 \<and> (of_char c :: nat) \<noteq> 215)
      then of_char c + 32 else of_char c)"
  by (cases c) (auto simp: less_eq_char_def)

lemma toLowerCase_codes:
  "map of_char (toLowerCase s) =
     map (\<lambda>n :: nat. if (65 \<le> n \<and> n \<le> 90) \<or> (192 \<le> n \<and> n \<le> 222 \<and> n \<noteq> 215)
                      then n + 32 else n)
       (map of_char s)"
  by (simp add: toLowerCase_def lower_char_code)

text \<open>
  Claim C1. For every item list and every sort key, \<open>MergeSort.sort\<close> returns a
  permutation of its input in which, of any two items, the one that comes first has the
  smaller or equal key: for a string property the lowercased strings are compared
  character by character, for a numeric property the numbers themselves. The items that
  share a key (the lowercased string, or the number) keep the relative order they had in
  the input. Lowercasing adds 32 to the codes 65 to 90 and 192 to 222 without 215, and
  leaves every other code as it is.
\<close>

theorem mergeSort_sorted_stable_permutation:
  "mset (sortedItems (MergeSort_sort items sortBy)) = mset items \<and>
   sorted_wrt
     (\<lambda>a b. (\<forall>s t. field_value a sortBy = Str s \<and> field_value b sortBy = Str t \<longrightarrow>
                      toLowerCase s \<le> toLowerCase t) \<and>
             (\<forall>x y. field_value a sortBy = Num x \<and> field_value b sortBy = Num y \<longrightarrow> x \<le> y))
     (sortedItems (MergeSort_sort items sortBy)) \<and>
   (\<forall>k. filter (\<lambda>it. (case field_value it sortBy of Str s \<Rightarrow> Str (toLowerCase s) | v \<Rightarrow> v) = k)
          (sortedItems (MergeSort_sort items sortBy)) =
        filter (\<lambda>it. (case field_value it sortBy of Str s \<Rightarrow> Str (toLowerCase s) | v \<Rightarrow> v) = k)
          items) \<and>
   (\<forall>s. map of_char (toLowerCase s) =
        map (\<lambda>n :: nat. if (65 \<le> n \<and> n \<le> 90) \<or> (192 \<le> n \<and> n \<le> 222 \<and> n \<noteq> 215)
                         then n + 32 else n)
          (map of_char s))"
proof -
  let ?c = "\<lparr>comparisons = 0, swaps = 0\<rparr>"
  have out: "sortedItems (MergeSort_sort items sortBy) = fst (mergeSort items sortBy ?c)"
    by (simp add: MergeSort_sort_def split: prod.splits)
  note props = mergeSort_props[of items sortBy ?c]
  have "sorted_wrt (key_le sortBy) (fst (mergeSort items sortBy ?c))"
    using props by blast
  then have srt: "sorted_wrt
     (\<lambda>a b. (\<forall>s t. field_value a sortBy = Str s \<and> field_value b sortBy = Str t \<longrightarrow>
                      toLowerCase s \<le> toLowerCase t) \<and>
             (\<forall>x y. field_value a sortBy = Num x \<and> field_value b sortBy = Num y \<longrightarrow> x \<le> y))
     (fst (mergeSort items sortBy ?c))"
    by (rule sorted_wrt_mono_rel[rotated]) (auto simp: key_le_def getValue_def)
  have stab: "\<forall>k. filter (\<lambda>it. (case field_value it sortBy of Str s \<Rightarrow> Str (toLowerCase s) | v \<Rightarrow> v) = k)
          (fst (mergeSort items sortBy ?c)) =
        filter (\<lambda>it. (case field_value it sortBy of Str s \<Rightarrow> Str (toLowerCase s) | v \<Rightarrow> v) = k)
          items"
    using props unfolding getValue_def by blast
  have perm: "mset (fst (mergeSort items sortBy ?c)) = mset items"
    using props by blast
  show ?thesis
    unfolding out using perm srt stab toLowerCase_codes by - (intro conjI allI; simp)
qed


theorem mergeSort_sorted_stable_permutation_witness:
  "mset (sortedItems (MergeSort_sort
      [example_item ''INV001'' ''banana'' 5 1 1, example_item ''INV002'' ''Apple'' 3 1 1,
       example_item ''INV003'' ''apple'' 7 1 1, example_item ''INV004'' ''Cherry'' 3 1 1] F_name)) =
    mset [example_item ''INV001'' ''banana'' 5 1 1, example_item ''INV002'' ''Apple'' 3 1 1,
          example_item ''INV003'' ''apple'' 7 1 1, example_item ''INV004'' ''Cherry'' 3 1 1] \<and>
   sortedItems (MergeSort_sort
      [example_item ''INV001'' ''banana'' 5 1 1, example_item ''INV002'' ''Apple'' 3 1 1,
       example_item ''INV003'' ''apple'' 7 1 1, example_item ''INV004'' ''Cherry'' 3 1 1] F_name) =
     [example_item ''INV002'' ''Apple'' 3 1 1, example_item ''INV003'' ''apple'' 7 1 1,
      example_item ''INV001'' ''banana'' 5 1 1, example_item ''INV004'' ''Cherry'' 3 1 1] \<and>
   sortedItems (MergeSort_sort
      [example_item ''INV001'' ''banana'' 5 1 1, example_item ''INV002'' ''Apple'' 3 1 1,
       example_item ''INV003'' ''apple'' 7 1 1, example_item ''INV004'' ''Cherry'' 3 1 1] F_quantity) =
     [example_item ''INV002'' ''Apple'' 3 1 1, example_item ''INV004'' ''Cherry'' 3 1 1,
      example_item ''INV001'' ''banana'' 5 1 1, example_item ''INV003'' ''apple'' 7 1 1] \<and>
   toLowerCase ''banana'' \<le> toLowerCase ''Cherry'' \<and>
   map of_char (toLowerCase ''Apple'') = [97, 112, 112, 108, 101 :: nat]"
proof -
  let ?L = "[example_item ''INV001'' ''banana'' 5 1 1, example_item ''INV002'' ''Apple'' 3 1 1,
       example_item ''INV003'' ''apple'' 7 1 1, example_item ''INV004'' ''Cherry'' 3 1 1]"
  from mergeSort_sorted_stable_permutation[of ?L F_name]
  have p: "mset (sortedItems (MergeSort_sort ?L F_name)) = mset ?L"
    and l: "map of_char (toLowerCase ''Apple'') =
        map (\<lambda>n :: nat. if (65 \<le> n \<and> n \<le> 90) \<or> (192 \<le> n \<and> n \<le> 222 \<and> n \<noteq> 215)
                         then n + 32 else n)
          (map of_char ''Apple'')"
    and s: "sorted_wrt
     (\<lambda>a b. (\<forall>s t. field_value a F_name = Str s \<and> field_value b F_name = Str t \<longrightarrow>
                      toLowerCase s \<le> toLowerCase t) \<and>
             (\<forall>x y. field_value a F_name = Num x \<and> field_value b F_name = Num y \<longrightarrow> x \<le> y))
     (sortedItems (MergeSort_sort ?L F_name))"
    by blast+
  from l have l': "map of_char (toLowerCase ''Apple'') = [97, 112, 112, 108, 101 :: nat]"
    by simp
  have n: "sortedItems (MergeSort_sort ?L F_name) =
     [example_item ''INV002'' ''Apple'' 3 1 1, example_item ''INV003'' ''apple'' 7 1 1,
      example_item ''INV001'' ''banana'' 5 1 1, example_item ''INV004'' ''Cherry'' 3 1 1]"
    by (simp add: MergeSort_sort_def mergeSort.simps merge_def getValue_def toLowerCase_def
          example_item_def)
  have q: "sortedItems (MergeSort_sort ?L F_quantity) =
     [example_item ''INV002'' ''Apple'' 3 1 1, example_item ''INV004'' ''Cherry'' 3 1 1,
      example_item ''INV001'' ''banana'' 5 1 1, example_item ''INV003'' ''apple'' 7 1 1]"
    by (simp add: MergeSort_sort_def mergeSort.simps merge_def getValue_def toLowerCase_def
          example_item_def)
  from s have o: "toLowerCase ''banana'' \<le> toLowerCase ''Cherry''"
    unfolding n by (simp add: example_item_def)
  show ?thesis
    using p n q o l' by - (intro conjI; assumption)
qed

section \<open>Verification: the prefix index\<close>

lemma lookup_add_prefix:
  "lookup_items (add_prefix item s fm) p =
     (if p = s then push_unique item (lookup_items fm s) else lookup_items fm p)"
  by (auto simp: add_prefix_def lookup_items_def push_unique_def update_conv' Let_def
           split: option.splits)

lemma lookup_fold_add_prefix:
  "k \<le> length v \<Longrightarrow>
   lookup_items (fold (\<lambda>i. add_prefix item (take i v)) [1..<Suc k] fm) p =
     (if \<exists>i. 1 \<le> i \<and> i \<le> k \<and> p = take i v
      then push_unique item (lookup_items fm p) else lookup_items fm p)"
proof (induction k)
  case 0
  then show ?case by simp
next
  case (Suc k)
  have kv: "k \<le> length v" and skv: "Suc k \<le> length v" using Suc.prems by auto
  have fresh: "\<not> (\<exists>i. 1 \<le> i \<and> i \<le> k \<and> take (Suc k) v = take i v)"
  proof
    assume "\<exists>i. 1 \<le> i \<and> i \<le> k \<and> take (Suc k) v = take i v"
    then obtain i where i: "i \<le> k" "take (Suc k) v = take i v" by blast
    from i(2) have "min (length v) (Suc k) = min (length v) i"
      by (metis length_take)
    with i(1) skv show False by simp
  qed
  have ex_split: "(\<exists>i. 1 \<le> i \<and> i \<le> Suc k \<and> p = take i v) \<longleftrightarrow>
      (\<exists>i. 1 \<le> i \<and> i \<le> k \<and> p = take i v) \<or> p = take (Suc k) v"
    by (metis le_Suc_eq le_add1 plus_1_eq_Suc)
  have unroll: "[1..<Suc (Suc k)] = [1..<Suc k] @ [Suc k]"
    by simp
  show ?case
    unfolding unroll ex_split fold_append comp_def fold_simps lookup_add_prefix
    using Suc.IH[OF kv] fresh by auto
qed


lemma prefix_iff_take:
  "(\<exists>i. 1 \<le> i \<and> i \<le> length v \<and> p = take i v) \<longleftrightarrow> p \<noteq> [] \<and> prefix p v"
proof
  assume "\<exists>i. 1 \<le> i \<and> i \<le> length v \<and> p = take i v"
  then obtain i where "1 \<le> i" "i \<le> length v" "p = take i v" by blast
  then show "p \<noteq> [] \<and> prefix p v"
    by (auto simp: take_is_prefix)
next
  assume a: "p \<noteq> [] \<and> prefix p v"
  then have "p = take (length p) v" "length p \<le> length v"
    by (auto simp: prefix_def)
  moreover have "1 \<le> length p" using a by (cases p) auto
  ultimately show "\<exists>i. 1 \<le> i \<and> i \<le> length v \<and> p = take i v" by blast
qed

lemma lookup_index_item:
  "lookup_items (index_item S fld item fm) p =
     (if p \<noteq> [] \<and> prefix p (toLowerCase (search_getValue S item fld))
      then push_unique item (lookup_items fm p) else lookup_items fm p)"
  unfolding index_item_def Let_def
  by (simp only: lookup_fold_add_prefix[OF order_refl] prefix_iff_take)

lemma lookup_fold_index_item:
  "lookup_items (fold (index_item S fld) items fm) p =
     (if p \<noteq> []
      then fold push_unique
             (filter (\<lambda>it. prefix p (toLowerCase (search_getValue S it fld))) items)
             (lookup_items fm p)
      else lookup_items fm p)"
  by (induction items arbitrary: fm) (simp_all add: lookup_index_item)

lemma fold_push_unique:
  "fold push_unique xs acc =
     acc @ dedup_by_id (filter (\<lambda>x. item_id x \<notin> item_id ` set acc) xs)"
proof (induction xs arbitrary: acc rule: length_induct)
  case (1 xs)
  show ?case
  proof (cases xs)
    case Nil
    then show ?thesis by simp
  next
    case (Cons x rest)
    have IH: "\<And>acc'. fold push_unique rest acc' =
        acc' @ dedup_by_id (filter (\<lambda>y. item_id y \<notin> item_id ` set acc') rest)"
      using 1 Cons by simp
    show ?thesis
    proof (cases "item_id x \<in> item_id ` set acc")
      case True
      then have "push_unique x acc = acc"
        by (auto simp: push_unique_def find_None_iff)
      with True Cons IH show ?thesis by simp
    next
      case False
      then have "\<forall>e \<in> set acc. item_id e \<noteq> item_id x"
        by (metis imageI)
      then have pu: "push_unique x acc = acc @ [x]"
        by (simp add: push_unique_def find_None_iff)
      have "filter (\<lambda>y. item_id y \<notin> item_id ` set (acc @ [x])) rest =
            filter (\<lambda>y. item_id y \<noteq> item_id x) (filter (\<lambda>y. item_id y \<notin> item_id ` set acc) rest)"
        by (auto intro: filter_cong)
      with False Cons IH pu show ?thesis by simp
    qed
  qed
qed

lemma lookup_build_fieldMap:
  "lookup_items (build_fieldMap S fld items) p =
     (if p \<noteq> []
      then dedup_by_id (filter (\<lambda>it. prefix p (toLowerCase (search_getValue S it fld))) items)
      else [])"
  by (simp add: build_fieldMap_def lookup_fold_index_item fold_push_unique)
     (simp add: lookup_items_def)

lemma results_lookup:
  "results (HashMapSearch_search hm t fld) =
     (case map_of hm fld of None \<Rightarrow> [] | Some fm \<Rightarrow> lookup_items fm (toLowerCase t))"
  by (simp add: HashMapSearch_search_def lookup_items_def split: option.splits)

lemma map_of_buildHashMap:
  "map_of (buildHashMap S items hm) fld =
     (if fld \<in> set indexed_fields then Some (build_fieldMap S fld items) else map_of hm fld)"
  by (auto simp: buildHashMap_def indexed_fields_def update_conv')

lemma toLowerCase_Nil_iff: "toLowerCase t = [] \<longleftrightarrow> t = []"
  by (simp add: toLowerCase_def)


lemma search_getValue_indexed:
  "fld \<in> {F_id, F_name, F_category, F_supplier} \<Longrightarrow>
   field_value it fld = Str (search_getValue S it fld)"
  by (auto simp: search_getValue_def)

text \<open>
  Claim C3. After \<open>buildHashMap\<close> has run on an item list (whatever the maps held
  before), a search for a non-empty term in one of the four indexed fields (id, name,
  category, supplier) returns the items whose lowercased field value starts with the
  lowercased term, in input order and with the first item of each id only; if the term
  is a prefix of no field value, even when it occurs inside one, the result is empty.
  Lowercasing adds 32 to the codes 65 to 90 and 192 to 222 without 215, and leaves every
  other code as it is.
\<close>

theorem hashMap_search_prefix_exact:
  assumes "fld \<in> {F_id, F_name, F_category, F_supplier}" and "searchTerm \<noteq> []"
  shows "results (HashMapSearch_search (buildHashMap S items hm) searchTerm fld) =
           dedup_by_id
             (filter (\<lambda>it. \<exists>v. field_value it fld = Str v \<and>
                              prefix (toLowerCase searchTerm) (toLowerCase v)) items)
         \<and> ((\<forall>it \<in> set items. \<forall>v. field_value it fld = Str v \<longrightarrow>
                 \<not> prefix (toLowerCase searchTerm) (toLowerCase v)) \<longrightarrow>
            results (HashMapSearch_search (buildHashMap S items hm) searchTerm fld) = [])
         \<and> (\<forall>s. map of_char (toLowerCase s) =
               map (\<lambda>n :: nat. if (65 \<le> n \<and> n \<le> 90) \<or> (192 \<le> n \<and> n \<le> 222 \<and> n \<noteq> 215)
                                then n + 32 else n)
                 (map of_char s))"
proof -
  have idx: "fld \<in> set indexed_fields"
    using assms(1) by (auto simp: indexed_fields_def)
  have pred: "(\<exists>v. field_value it fld = Str v \<and> prefix (toLowerCase searchTerm) (toLowerCase v))
      \<longleftrightarrow> prefix (toLowerCase searchTerm) (toLowerCase (search_getValue S it fld))" for it
    using search_getValue_indexed[OF assms(1), of it S] by auto
  have main: "results (HashMapSearch_search (buildHashMap S items hm) searchTerm fld) =
           dedup_by_id
             (filter (\<lambda>it. \<exists>v. field_value it fld = Str v \<and>
                              prefix (toLowerCase searchTerm) (toLowerCase v)) items)"
    unfolding pred using idx assms(2)
    by (simp add: results_lookup map_of_buildHashMap lookup_build_fieldMap toLowerCase_Nil_iff)
  have none: "results (HashMapSearch_search (buildHashMap S items hm) searchTerm fld) = []"
    if "\<forall>it \<in> set items. \<forall>v. field_value it fld = Str v \<longrightarrow>
                 \<not> prefix (toLowerCase searchTerm) (toLowerCase v)"
  proof -
    from that have "filter (\<lambda>it. \<exists>v. field_value it fld = Str v \<and>
                              prefix (toLowerCase searchTerm) (toLowerCase v)) items = []"
      by (auto simp: filter_empty_conv)
    with main show ?thesis by simp
  qed
  show ?thesis
    using main none toLowerCase_codes by - (intro conjI allI impI; simp)
qed

theorem hashMap_search_prefix_exact_witness:
  "F_name \<in> {F_id, F_name, F_category, F_supplier} \<and> ''gAME'' \<noteq> [] \<and> ''mouse'' \<noteq> [] \<and>
   [CHR 0xE9, CHR ''C''] \<noteq> [] \<and>
   results (HashMapSearch_search
              (buildHashMap (\<lambda>v. [])
                 [example_item ''INV002'' ''GameMouse'' 8 0.15 367.92,
                  example_item ''INV003'' ''Keyboard'' 4 1 50,
                  example_item ''INV004'' ''gamepad'' 2 1 30,
                  example_item ''INV005'' [CHR 0xC9, CHR ''c'', CHR ''r'', CHR ''a'', CHR ''n''] 1 1 200] [])
              ''gAME'' F_name)
     = [example_item ''INV002'' ''GameMouse'' 8 0.15 367.92,
        example_item ''INV004'' ''gamepad'' 2 1 30] \<and>
   results (HashMapSearch_search
              (buildHashMap (\<lambda>v. [])
                 [example_item ''INV002'' ''GameMouse'' 8 0.15 367.92,
                  example_item ''INV003'' ''Keyboard'' 4 1 50,
                  example_item ''INV004'' ''gamepad'' 2 1 30,
                  example_item ''INV005'' [CHR 0xC9, CHR ''c'', CHR ''r'', CHR ''a'', CHR ''n''] 1 1 200] [])
              ''mouse'' F_name)
     = [] \<and>
   results (HashMapSearch_search
              (buildHashMap (\<lambda>v. [])
                 [example_item ''INV002'' ''GameMouse'' 8 0.15 367.92,
                  example_item ''INV003'' ''Keyboard'' 4 1 50,
                  example_item ''INV004'' ''gamepad'' 2 1 30,
                  example_item ''INV005'' [CHR 0xC9, CHR ''c'', CHR ''r'', CHR ''a'', CHR ''n''] 1 1 200] [])
              [CHR 0xE9, CHR ''C''] F_name)
     = [example_item ''INV005'' [CHR 0xC9, CHR ''c'', CHR ''r'', CHR ''a'', CHR ''n''] 1 1 200]"
proof -
  let ?L = "[example_item ''INV002'' ''GameMouse'' 8 0.15 367.92,
             example_item ''INV003'' ''Keyboard'' 4 1 50,
             example_item ''INV004'' ''gamepad'' 2 1 30,
             example_item ''INV005'' [CHR 0xC9, CHR ''c'', CHR ''r'', CHR ''a'', CHR ''n''] 1 1 200]"
  have f: "F_name \<in> {F_id, F_name, F_category, F_supplier}" by simp
  have g: "''gAME'' \<noteq> []" and m: "''mouse'' \<noteq> []" and e: "[CHR 0xE9, CHR ''C''] \<noteq> []"
    by simp_all
  have r1: "results (HashMapSearch_search (buildHashMap (\<lambda>v. []) ?L []) ''gAME'' F_name) =
      [example_item ''INV002'' ''GameMouse'' 8 0.15 367.92, example_item ''INV004'' ''gamepad'' 2 1 30]"
    using hashMap_search_prefix_exact[OF f g, of "\<lambda>v. []" ?L "[]"]
    by (simp add: toLowerCase_def example_item_def)
  have r2: "results (HashMapSearch_search (buildHashMap (\<lambda>v. []) ?L []) ''mouse'' F_name) = []"
    using hashMap_search_prefix_exact[OF f m, of "\<lambda>v. []" ?L "[]"]
    by (simp add: toLowerCase_def example_item_def)
  have r3: "results (HashMapSearch_search (buildHashMap (\<lambda>v. []) ?L []) [CHR 0xE9, CHR ''C''] F_name) =
      [example_item ''INV005'' [CHR 0xC9, CHR ''c'', CHR ''r'', CHR ''a'', CHR ''n''] 1 1 200]"
    using hashMap_search_prefix_exact[OF f e, of "\<lambda>v. []" ?L "[]"]
    by (simp add: toLowerCase_def example_item_def)
  show ?thesis
    using f g m e r1 r2 r3 by - (intro conjI; assumption)
qed

subsection \<open>Searches that find nothing\<close>

lemma map_of_add_prefix_Nil:
  "s \<noteq> [] \<Longrightarrow> map_of (add_prefix item s fm) [] = map_of fm []"
  by (auto simp: add_prefix_def update_conv' Let_def split: option.splits)

lemma map_of_fold_add_prefix_Nil:
  "0 \<notin> set ks \<Longrightarrow> \<forall>k \<in> set ks. k \<le> length v \<Longrightarrow>
   map_of (fold (\<lambda>i. add_prefix item (take i v)) ks fm) [] = map_of fm []"
proof (induction ks arbitrary: fm)
  case Nil
  then show ?case by simp
next
  case (Cons k ks)
  then have "take k v \<noteq> []" by auto
  with Cons show ?case by (simp add: map_of_add_prefix_Nil)
qed

lemma map_of_index_item_Nil: "map_of (index_item S fld item fm) [] = map_of fm []"
  unfolding index_item_def Let_def
  by (rule map_of_fold_add_prefix_Nil) auto

lemma map_of_build_fieldMap_Nil: "map_of (build_fieldMap S fld items) [] = None"
proof -
  have "map_of (fold (index_item S fld) items fm) [] = map_of fm []" for fm
    by (induction items arbitrary: fm) (simp_all add: map_of_index_item_Nil)
  then show ?thesis by (simp add: build_fieldMap_def)
qed

lemma maps_wf_build:
  assumes "maps_wf hm"
  shows "maps_wf (buildHashMap S items hm)"
  unfolding maps_wf_def
proof (intro allI impI)
  fix fld fm
  assume a: "map_of (buildHashMap S items hm) fld = Some fm"
  show "fld \<in> set indexed_fields \<and> map_of fm [] = None"
  proof (cases "fld \<in> set indexed_fields")
    case True
    then have "fm = build_fieldMap S fld items"
      using a by (simp add: map_of_buildHashMap)
    with True show ?thesis by (simp add: map_of_build_fieldMap_Nil)
  next
    case False
    then have "map_of hm fld = Some fm"
      using a by (simp add: map_of_buildHashMap)
    with assms show ?thesis unfolding maps_wf_def by blast
  qed
qed

lemma maps_wf_fold: "maps_wf hm \<Longrightarrow> maps_wf (fold (buildHashMap S) builds hm)"
  by (induction builds arbitrary: hm) (simp_all add: maps_wf_build)

lemma maps_wf_after_builds: "maps_wf (after_builds S builds)"
  unfolding after_builds_def
  by (rule maps_wf_fold) (simp add: maps_wf_def new_hashMaps_def)

text \<open>
  Claim C10. In every state the index can be in (new, or after any sequence of builds), a
  map exists only for the four indexed fields and never has the empty string as a key;
  and a search returns the empty list when no build has run, when the field is not an
  indexed one, or when the term is empty. The function has no failing branch.
\<close>

theorem hashMap_search_empty_cases:
  "(\<forall>fld fm. map_of (after_builds S builds) fld = Some fm \<longrightarrow>
      fld \<in> set indexed_fields \<and> map_of fm [] = None) \<and>
   (builds = [] \<or> fld \<notin> set indexed_fields \<or> searchTerm = [] \<longrightarrow>
      results (HashMapSearch_search (after_builds S builds) searchTerm fld) = [])"
proof -
  have wf: "\<forall>fld fm. map_of (after_builds S builds) fld = Some fm \<longrightarrow>
      fld \<in> set indexed_fields \<and> map_of fm [] = None"
    using maps_wf_after_builds[of S builds] by (simp add: maps_wf_def)
  have "results (HashMapSearch_search (after_builds S builds) searchTerm fld) = []"
    if c: "builds = [] \<or> fld \<notin> set indexed_fields \<or> searchTerm = []"
  proof (cases "map_of (after_builds S builds) fld")
    case None
    then show ?thesis by (simp add: HashMapSearch_search_def)
  next
    case (Some fm)
    with wf have in_f: "fld \<in> set indexed_fields" and no_key: "map_of fm [] = None" by auto
    have "builds \<noteq> []"
      using Some by (auto simp: after_builds_def new_hashMaps_def)
    with c in_f have "searchTerm = []" by blast
    with Some no_key show ?thesis
      by (simp add: HashMapSearch_search_def toLowerCase_def)
  qed
  with wf show ?thesis by blast
qed

theorem hashMap_search_empty_cases_witness:
  "results (HashMapSearch_search (after_builds (\<lambda>v. []) []) ''Game'' F_name) = [] \<and>
   results (HashMapSearch_search
              (after_builds (\<lambda>v. []) [[example_item ''INV002'' ''GameMouse'' 8 0.15 367.92]])
              ''8'' F_quantity) = [] \<and>
   results (HashMapSearch_search
              (after_builds (\<lambda>v. []) [[example_item ''INV002'' ''GameMouse'' 8 0.15 367.92]])
              [] F_name) = []"
  using hashMap_search_empty_cases[of "\<lambda>v. []" "[]" F_name "''Game''"]
        hashMap_search_empty_cases[of "\<lambda>v. []"
          "[[example_item ''INV002'' ''GameMouse'' 8 0.15 367.92]]" F_quantity "''8''"]
        hashMap_search_empty_cases[of "\<lambda>v. []"
          "[[example_item ''INV002'' ''GameMouse'' 8 0.15 367.92]]" F_name "[]"]
  by (simp add: indexed_fields_def)

section \<open>Verification: space allocation\<close>

lemma scan_spaces_None:
  "scan_spaces st q pool best = None \<longleftrightarrow>
     best = None \<and> (\<forall>r \<in> set pool. \<not> q \<le> available (st r))"
  by (induction st q pool best rule: scan_spaces.induct) (auto simp: Let_def)

lemma scan_spaces_Some:
  "scan_spaces st q pool best = Some (b, w) \<Longrightarrow> best_ok st q best \<Longrightarrow>
   q \<le> available (st b) \<and> w = available (st b) - q \<and>
   (b \<in> set pool \<or> best = Some (b, w)) \<and>
   (\<forall>r \<in> set pool. q \<le> available (st r) \<longrightarrow> w \<le> available (st r) - q) \<and>
   best_le w best"
proof (induction pool arbitrary: best)
  case Nil
  then show ?case by (simp add: best_ok_def best_le_def)
next
  case (Cons space rest)
  show ?case
  proof (cases "q \<le> available (st space)")
    case False
    then have "scan_spaces st q rest best = Some (b, w)"
      using Cons.prems(1) by simp
    from Cons.IH[OF this Cons.prems(2)] False show ?thesis by auto
  next
    case True
    let ?w = "available (st space) - q"
    show ?thesis
    proof (cases "case best of None \<Rightarrow> True | Some (bestSpace, bestFit) \<Rightarrow> ?w < bestFit")
      case better: True
      have run: "scan_spaces st q rest (Some (space, ?w)) = Some (b, w)"
        using Cons.prems(1) True better by (simp add: Let_def)
      have ok: "best_ok st q (Some (space, ?w))"
        using True by (simp add: best_ok_def)
      note ih = Cons.IH[OF run ok]
      from ih have le: "w \<le> ?w" by (simp add: best_le_def)
      have "best_le w best"
        using better le by (cases best) (auto simp: best_le_def)
      moreover have "b \<in> set (space # rest) \<or> best = Some (b, w)"
        using ih by auto
      moreover have "\<forall>r \<in> set (space # rest). q \<le> available (st r) \<longrightarrow> w \<le> available (st r) - q"
        using ih le by auto
      ultimately show ?thesis using ih by blast
    next
      case worse: False
      have run: "scan_spaces st q rest best = Some (b, w)"
        using Cons.prems(1) True worse by (simp add: Let_def)
      note ih = Cons.IH[OF run Cons.prems(2)]
      from worse obtain b0 w0 where best: "best = Some (b0, w0)" and nb: "\<not> ?w < w0"
        by (cases best) auto
      from ih best have "w \<le> w0" by (simp add: best_le_def)
      with nb have le: "w \<le> ?w" by simp
      have "\<forall>r \<in> set (space # rest). q \<le> available (st r) \<longrightarrow> w \<le> available (st r) - q"
        using ih le by auto
      moreover have "b \<in> set (space # rest) \<or> best = Some (b, w)"
        using ih by auto
      ultimately show ?thesis using ih by blast
    qed
  qed
qed

lemma scan_spaces_best:
  assumes "scan_spaces st q pool None = Some (b, w)"
  shows "b \<in> set pool \<and> q \<le> available (st b) \<and> w = available (st b) - q \<and>
         (\<forall>r \<in> set pool. q \<le> available (st r) \<longrightarrow>
              available (st b) - q \<le> available (st r) - q)"
  using scan_spaces_Some[OF assms] by (auto simp: best_ok_def)


subsection \<open>The invariant of the space units\<close>

lemma allocate_item_space_ok:
  assumes "space_ok (store s r)"
  shows "space_ok (store (allocate_item item s) r)"
proof (cases "scan_spaces (store s) (quantity item) (spaces s) None")
  case None
  with assms show ?thesis by (simp add: allocate_item_def)
next
  case (Some bw)
  obtain b w where bw: "bw = (b, w)" by (cases bw)
  from scan_spaces_best[OF Some[unfolded bw]]
  have fit: "quantity item \<le> available (store s b)" by simp
  show ?thesis
  proof (cases "r = b")
    case True
    with assms fit Some bw show ?thesis
      by (simp add: allocate_item_def Let_def space_ok_def)
  next
    case False
    with assms Some bw show ?thesis
      by (simp add: allocate_item_def Let_def)
  qed
qed

lemma fold_allocate_item_space_ok:
  "space_ok (store s r) \<Longrightarrow> space_ok (store (fold allocate_item ranked s) r)"
  by (induction ranked arbitrary: s) (simp_all add: allocate_item_space_ok)

text \<open>
  Claim C5. If every space unit of the list satisfies \<open>available = capacity - occupied\<close>
  and \<open>available \<ge> 0\<close> before the call, then after \<open>allocateSpace\<close> every one of them
  satisfies \<open>occupied + available = capacity\<close> and \<open>available \<ge> 0\<close>. The same holds for the
  loop run over the items in any order whatever, so it does not depend on how the library
  sort orders items of weight zero.
\<close>

theorem allocateSpace_keeps_space_invariant:
  assumes "\<forall>r \<in> set availableSpaces.
             available (st r) = capacity (st r) - occupied (st r) \<and> 0 \<le> available (st r)"
  shows "(\<forall>r \<in> set availableSpaces.
            occupied (snd (allocateSpace sortCalls items availableSpaces st) r)
              + available (snd (allocateSpace sortCalls items availableSpaces st) r)
              = capacity (snd (allocateSpace sortCalls items availableSpaces st) r) \<and>
            0 \<le> available (snd (allocateSpace sortCalls items availableSpaces st) r)) \<and>
         (\<forall>ranked. \<forall>r \<in> set availableSpaces.
            space_ok (store (fold allocate_item ranked
                               (allocation_start sortCalls availableSpaces st)) r))"
proof -
  have start: "space_ok (store (allocation_start sortCalls availableSpaces st) r)"
    if "r \<in> set availableSpaces" for r
    using assms that by (auto simp: allocation_start_def space_ok_def)
  have any: "space_ok (store (fold allocate_item ranked
                               (allocation_start sortCalls availableSpaces st)) r)"
    if "r \<in> set availableSpaces" for r ranked
    using fold_allocate_item_space_ok[OF start[OF that]] .
  have "snd (allocateSpace sortCalls items availableSpaces st) =
        store (fold allocate_item (sortedItems_by_density items)
                 (allocation_start sortCalls availableSpaces st))"
    by (simp add: allocateSpace_def Let_def)
  with any[of _ "sortedItems_by_density items"] any show ?thesis
    by (simp add: space_ok_def)
qed

theorem allocateSpace_keeps_space_invariant_witness:
  "available (example_store (example_space 10 5) (example_space 8 0) 0) = 5 \<and>
   available (example_store (example_space 10 5) (example_space 8 0) 1) = 8 \<and>
   space_ok (snd (allocateSpace 0 [example_item ''INV001'' ''Headphones'' 5 1 1] [0, 1]
                    (example_store (example_space 10 5) (example_space 8 0))) 0) \<and>
   space_ok (snd (allocateSpace 0 [example_item ''INV001'' ''Headphones'' 5 1 1] [0, 1]
                    (example_store (example_space 10 5) (example_space 8 0))) 1)"
  using allocateSpace_keeps_space_invariant[of "[0, 1]"
          "example_store (example_space 10 5) (example_space 8 0)" 0
          "[example_item ''INV001'' ''Headphones'' 5 1 1]"]
  by (simp add: example_store_def example_space_def space_ok_def)

section \<open>Verification: best fit\<close>

subsection \<open>The ranking and the steps of the allocation loop\<close>

lemma allocate_item_step: "best_fit_step item s (allocate_item item s)"
proof (cases "scan_spaces (store s) (quantity item) (spaces s) None")
  case None
  then have "\<not> (\<exists>r \<in> set (spaces s). quantity item \<le> available (store s r))"
    by (simp add: scan_spaces_None)
  with None show ?thesis
    by (simp add: best_fit_step_def allocate_item_def)
next
  case (Some bw)
  obtain b w where bw: "bw = (b, w)" by (cases bw)
  note best = scan_spaces_best[OF Some[unfolded bw]]
  from best have ex: "\<exists>r \<in> set (spaces s). quantity item \<le> available (store s r)"
    by blast
  have "\<exists>b \<in> set (spaces s).
             quantity item \<le> available (store s b) \<and>
             (\<forall>r \<in> set (spaces s). quantity item \<le> available (store s r) \<longrightarrow>
                available (store s b) - quantity item \<le> available (store s r) - quantity item) \<and>
             map alloc_item (allocations (allocate_item item s)) = map alloc_item (allocations s) @ [item] \<and>
             map allocatedSpace (allocations (allocate_item item s)) = map allocatedSpace (allocations s) @ [b] \<and>
             unallocated (allocate_item item s) = unallocated s \<and>
             store (allocate_item item s) = (store s)
               (b := (store s b)\<lparr>available := available (store s b) - quantity item,
                                  occupied := occupied (store s b) + quantity item,
                                  itemId := Some (item_id item)\<rparr>) \<and>
             spaces (allocate_item item s) = (if available (store s b) - quantity item = 0
                          then remove1 b (spaces s) else spaces s)"
    apply (rule bexI[of _ b])
    using best Some bw apply (simp add: allocate_item_def Let_def)
    using best apply simp
    done
  with ex show ?thesis by (simp only: best_fit_step_def if_True)
qed

lemma fold_allocate_item_unallocated:
  "\<exists>us. unallocated (fold allocate_item xs s) = unallocated s @ us \<and> subseq us xs"
proof (induction xs arbitrary: s)
  case Nil
  then show ?case by simp
next
  case (Cons x xs)
  from Cons.IH[of "allocate_item x s"] obtain us where
    us: "unallocated (fold allocate_item xs (allocate_item x s)) =
         unallocated (allocate_item x s) @ us" "subseq us xs" by blast
  have "unallocated (allocate_item x s) = unallocated s \<or>
        unallocated (allocate_item x s) = unallocated s @ [x]"
    using allocate_item_step[of x s] by (auto simp: best_fit_step_def split: if_splits)
  then show ?case
  proof
    assume "unallocated (allocate_item x s) = unallocated s"
    with us show ?thesis by (auto intro: exI[of _ us])
  next
    assume "unallocated (allocate_item x s) = unallocated s @ [x]"
    with us show ?thesis by (auto intro: exI[of _ "x # us"])
  qed
qed


lemma double_round_not_NaN: "double_round x \<noteq> NaN"
  by (simp add: double_round_def Let_def)

lemma density_not_NaN: "weight it \<noteq> 0 \<Longrightarrow> density it \<noteq> NaN"
  by (simp add: density_def double_round_not_NaN)

lemma arctan_bounds2:
  "- 2 < arctan x" "arctan x < 2" "- 2 \<le> arctan x" "arctan x \<le> 2"
  "\<not> 2 \<le> arctan x" "\<not> arctan x \<le> - 2" "arctan x \<noteq> 2" "arctan x \<noteq> - 2"
  "2 \<noteq> arctan x" "- 2 \<noteq> arctan x"
proof -
  have "pi / 2 < 2" using pi_less_4 by simp
  then have "- 2 < arctan x \<and> arctan x < 2"
    using arctan_lbound[of x] arctan_ubound[of x] by linarith
  then show "- 2 < arctan x" "arctan x < 2" "- 2 \<le> arctan x" "arctan x \<le> 2"
    "\<not> 2 \<le> arctan x" "\<not> arctan x \<le> - 2" "arctan x \<noteq> 2" "arctan x \<noteq> - 2"
    "2 \<noteq> arctan x" "- 2 \<noteq> arctan x"
    by simp_all
qed

lemma num_rank_le:
  "a \<noteq> NaN \<Longrightarrow> b \<noteq> NaN \<Longrightarrow> num_rank b \<le> num_rank a \<longleftrightarrow> \<not> num_less a b"
  by (cases a; cases b) (simp_all add: arctan_bounds2 arctan_le_iff not_less)

lemma num_rank_inj:
  "a \<noteq> NaN \<Longrightarrow> b \<noteq> NaN \<Longrightarrow> num_rank a = num_rank b \<longleftrightarrow> a = b"
  by (cases a; cases b) (simp_all add: arctan_bounds2 arctan_eq_iff)

lemma comparator_rank:
  "a \<noteq> NaN \<Longrightarrow> b \<noteq> NaN \<Longrightarrow>
   comparator_result (num_sub b a) \<le> 0 \<longleftrightarrow> num_rank b \<le> num_rank a"
  by (cases a; cases b) (simp_all add: num_sub_def arctan_bounds2 arctan_le_iff)

lemma insert_by_density:
  "weight x \<noteq> 0 \<Longrightarrow> \<forall>y \<in> set ys. weight y \<noteq> 0 \<Longrightarrow>
   insert_by density_comparator x ys = insort_key (\<lambda>it. - num_rank (density it)) x ys"
  by (induction ys)
     (simp_all add: density_comparator_def comparator_rank density_not_NaN)

lemma array_sort_density:
  "\<forall>x \<in> set xs. weight x \<noteq> 0 \<Longrightarrow>
   array_sort density_comparator xs = sort_key (\<lambda>it. - num_rank (density it)) xs"
proof (induction xs)
  case Nil
  then show ?case by (simp add: array_sort_def)
next
  case (Cons x xs)
  then have ih: "array_sort density_comparator xs = sort_key (\<lambda>it. - num_rank (density it)) xs"
    by simp
  have "\<forall>y \<in> set (sort_key (\<lambda>it. - num_rank (density it)) xs). weight y \<noteq> 0"
    using Cons.prems by simp
  with Cons.prems ih show ?case
    by (simp add: array_sort_def sort_key_def insert_by_density)
qed

lemma ranked_props:
  assumes "\<forall>it \<in> set items. weight it \<noteq> 0"
  shows "mset (sortedItems_by_density items) = mset items"
    and "sorted_wrt (\<lambda>a b. \<not> num_less (density a) (density b)) (sortedItems_by_density items)"
    and "filter (\<lambda>x. density x = d) (sortedItems_by_density items) =
         filter (\<lambda>x. density x = d) items"
proof -
  let ?f = "\<lambda>it. - num_rank (density it)"
  have eq: "sortedItems_by_density items = sort_key ?f items"
    using assms by (simp add: sortedItems_by_density_def array_sort_density)
  show m: "mset (sortedItems_by_density items) = mset items"
    by (simp add: eq)
  have nn: "density x \<noteq> NaN" if "x \<in> set (sort_key ?f items)" for x
    using that assms by (simp add: density_not_NaN)
  have "sorted (map ?f (sort_key ?f items))" by (rule sorted_sort_key)
  then have "sorted_wrt (\<lambda>a b. ?f a \<le> ?f b) (sort_key ?f items)"
    by (simp add: sorted_map)
  then have "sorted_wrt (\<lambda>a b. \<not> num_less (density a) (density b)) (sort_key ?f items)"
    by (rule sorted_wrt_mono_rel[rotated]) (use nn in \<open>simp add: num_rank_le\<close>)
  then show "sorted_wrt (\<lambda>a b. \<not> num_less (density a) (density b)) (sortedItems_by_density items)"
    by (simp add: eq)
  show "filter (\<lambda>x. density x = d) (sortedItems_by_density items) =
         filter (\<lambda>x. density x = d) items"
  proof (cases "d = NaN")
    case True
    have "filter (\<lambda>x. density x = d) (sort_key ?f items) = []"
      using nn True by (auto simp: filter_empty_conv)
    moreover have "filter (\<lambda>x. density x = d) items = []"
      using assms True by (auto simp: filter_empty_conv density_not_NaN)
    ultimately show ?thesis by (simp add: eq)
  next
    case False
    have stable: "filter (\<lambda>x. ?f x = - num_rank d) (sort_key ?f items) =
                  filter (\<lambda>x. ?f x = - num_rank d) items"
      by (rule sort_key_stable)
    have c1: "filter (\<lambda>x. density x = d) (sort_key ?f items) =
              filter (\<lambda>x. ?f x = - num_rank d) (sort_key ?f items)"
      by (rule filter_cong) (use nn False in \<open>auto simp: num_rank_inj\<close>)
    have c2: "filter (\<lambda>x. density x = d) items = filter (\<lambda>x. ?f x = - num_rank d) items"
      by (rule filter_cong) (use assms False in \<open>auto simp: num_rank_inj density_not_NaN\<close>)
    show ?thesis using stable c1 c2 by (simp add: eq)
  qed
qed

lemma best_fit_run_fold: "best_fit_run xs s (fold allocate_item xs s)"
proof (induction xs arbitrary: s)
  case Nil
  then show ?case by simp
next
  case (Cons x xs)
  have "best_fit_step x s (allocate_item x s) \<and>
        best_fit_run xs (allocate_item x s) (fold allocate_item xs (allocate_item x s))"
    using allocate_item_step Cons.IH by simp
  then show ?case by (simp only: best_fit_run.simps fold_simps) (rule exI)
qed


text \<open>
  Claim C6, as amended. When all weights are positive, there are a ranking of the items
  and a run of the allocation loop such that: the ranking is a permutation of the items
  in descending order of value density (the quotient \<open>value / weight\<close> as a double), in
  which items of equal density keep their original order; the run starts from the given
  store with the pool of the spaces that have something available, no allocation and no
  unallocated item, and takes one best-fit step per item in ranked order; and the
  allocations, the unallocated items and the store that \<open>allocateSpace\<close> returns are
  those of the last state of the run. In every step the item goes to a space of the pool
  with the smallest leftover \<open>available - quantity\<close> among the spaces that can hold it;
  this leftover may be zero, and then the space leaves the pool. An item that no space
  can hold is appended to \<open>unallocated\<close>, so \<open>unallocated\<close> lists such items in ranked
  order.
\<close>

theorem greedy_best_fit_behaviour:
  assumes "\<forall>it \<in> set items. 0 < weight it"
  shows "\<exists>ranked start final.
           mset ranked = mset items \<and>
           sorted_wrt (\<lambda>a b. \<not> num_less (num_div (item_value a) (weight a))
                                       (num_div (item_value b) (weight b))) ranked \<and>
           (\<forall>d. filter (\<lambda>x. num_div (item_value x) (weight x) = d) ranked =
                filter (\<lambda>x. num_div (item_value x) (weight x) = d) items) \<and>
           store start = st \<and>
           spaces start = filter (\<lambda>space. 0 < available (st space)) availableSpaces \<and>
           allocations start = [] \<and> unallocated start = [] \<and>
           best_fit_run ranked start final \<and>
           res_allocations (fst (allocateSpace sortCalls items availableSpaces st)) =
             allocations final \<and>
           res_unallocated (fst (allocateSpace sortCalls items availableSpaces st)) =
             unallocated final \<and>
           snd (allocateSpace sortCalls items availableSpaces st) = store final \<and>
           subseq (unallocated final) ranked"
proof -
  define ranked where "ranked = sortedItems_by_density items"
  define start where "start = allocation_start sortCalls availableSpaces st"
  define final where "final = fold allocate_item ranked start"
  have nz: "\<forall>it \<in> set items. weight it \<noteq> 0" using assms by auto
  have r1: "mset ranked = mset items"
    unfolding ranked_def by (rule ranked_props(1)[OF nz])
  have r2: "sorted_wrt (\<lambda>a b. \<not> num_less (num_div (item_value a) (weight a))
                                       (num_div (item_value b) (weight b))) ranked"
    using ranked_props(2)[OF nz] unfolding ranked_def density_def .
  have r3: "\<forall>d. filter (\<lambda>x. num_div (item_value x) (weight x) = d) ranked =
                filter (\<lambda>x. num_div (item_value x) (weight x) = d) items"
    using ranked_props(3)[OF nz] unfolding ranked_def density_def by blast
  have s1: "store start = st"
    and s2: "spaces start = filter (\<lambda>space. 0 < available (st space)) availableSpaces"
    and s3: "allocations start = []" and s4: "unallocated start = []"
    by (simp_all add: start_def allocation_start_def)
  have run: "best_fit_run ranked start final"
    unfolding final_def by (rule best_fit_run_fold)
  have o1: "res_allocations (fst (allocateSpace sortCalls items availableSpaces st)) =
             allocations final"
    and o2: "res_unallocated (fst (allocateSpace sortCalls items availableSpaces st)) =
             unallocated final"
    and o3: "snd (allocateSpace sortCalls items availableSpaces st) = store final"
    by (simp_all add: allocateSpace_def Let_def final_def ranked_def start_def)
  have sub: "subseq (unallocated final) ranked"
    using fold_allocate_item_unallocated[of ranked start] s4 unfolding final_def by auto
  show ?thesis
    apply (rule exI[of _ ranked], rule exI[of _ start], rule exI[of _ final])
    using r1 r2 r3 s1 s2 s3 s4 run o1 o2 o3 sub apply - 
    apply (intro conjI; assumption)
    done
qed


text \<open>
  Some numbers, rounded: small integers and the quotients \<open>1 / 3\<close> and \<open>1 / 10\<close>; two
  integers halfway between doubles, which go to the even significand; the first number
  that is too large, and the smallest positive double.
\<close>

lemma double_round_examples:
  "double_round 1 = Fin 1" "double_round 5 = Fin 5" "double_round 10 = Fin 10"
  "double_round (1 / 3) = Fin (6004799503160661 / 18014398509481984)"
  "double_round (6004799503160661 / 18014398509481984) = Fin (6004799503160661 / 18014398509481984)"
  "double_round (1 / 10) = Fin (3602879701896397 / 36028797018963968)"
  "double_round 9007199254740993 = Fin 9007199254740992"
  "double_round 9007199254740995 = Fin 9007199254740996"
  by (simp_all add: double_round_def ulp_def round_half_even_def eval_nat_numeral Let_def)

lemma double_round_overflow: "double_round (2 ^ 1024) = PInf"
  by (simp add: double_round_def ulp_def round_half_even_def eval_nat_numeral Let_def)

lemma double_round_smallest: "double_round (1 / 2 ^ 1074) = Fin (1 / 2 ^ 1074)"
  by (simp add: double_round_def ulp_def round_half_even_def eval_nat_numeral Let_def)

theorem greedy_best_fit_behaviour_witness:
  "0 < weight (example_item ''INV001'' ''Headphones'' 5 2 10) \<and>
   0 < weight (example_item ''INV002'' ''Mouse'' 5 3 30) \<and>
   0 < weight (example_item ''INV003'' ''Monitor'' 20 1 1) \<and>
   (\<exists>ranked start final.
      mset ranked = mset [example_item ''INV001'' ''Headphones'' 5 2 10,
                          example_item ''INV002'' ''Mouse'' 5 3 30,
                          example_item ''INV003'' ''Monitor'' 20 1 1] \<and>
      store start = example_store (example_space 10 5) (example_space 8 0) \<and>
      best_fit_run ranked start final \<and>
      res_unallocated (fst (allocateSpace 0
          [example_item ''INV001'' ''Headphones'' 5 2 10,
           example_item ''INV002'' ''Mouse'' 5 3 30,
           example_item ''INV003'' ''Monitor'' 20 1 1]
          [0, 1] (example_store (example_space 10 5) (example_space 8 0)))) =
        unallocated final) \<and>
   map alloc_item (res_allocations (fst (allocateSpace 0
          [example_item ''INV001'' ''Headphones'' 5 2 10,
           example_item ''INV002'' ''Mouse'' 5 3 30,
           example_item ''INV003'' ''Monitor'' 20 1 1]
          [0, 1] (example_store (example_space 10 5) (example_space 8 0))))) =
     [example_item ''INV002'' ''Mouse'' 5 3 30, example_item ''INV001'' ''Headphones'' 5 2 10] \<and>
   map allocatedSpace (res_allocations (fst (allocateSpace 0
          [example_item ''INV001'' ''Headphones'' 5 2 10,
           example_item ''INV002'' ''Mouse'' 5 3 30,
           example_item ''INV003'' ''Monitor'' 20 1 1]
          [0, 1] (example_store (example_space 10 5) (example_space 8 0))))) = [0, 1] \<and>
   res_unallocated (fst (allocateSpace 0
          [example_item ''INV001'' ''Headphones'' 5 2 10,
           example_item ''INV002'' ''Mouse'' 5 3 30,
           example_item ''INV003'' ''Monitor'' 20 1 1]
          [0, 1] (example_store (example_space 10 5) (example_space 8 0)))) =
     [example_item ''INV003'' ''Monitor'' 20 1 1]"
proof -
  let ?A = "example_item ''INV001'' ''Headphones'' 5 2 10"
  let ?B = "example_item ''INV002'' ''Mouse'' 5 3 30"
  let ?C = "example_item ''INV003'' ''Monitor'' 20 1 1"
  let ?st = "example_store (example_space 10 5) (example_space 8 0)"
  have w: "0 < weight ?A" "0 < weight ?B" "0 < weight ?C"
    by (simp_all add: example_item_def)
  then have h: "\<forall>it \<in> set [?A, ?B, ?C]. 0 < weight it" by simp
  from greedy_best_fit_behaviour[OF h, of ?st "[0, 1]" 0]
  have e: "\<exists>ranked start final.
      mset ranked = mset [?A, ?B, ?C] \<and> store start = ?st \<and> best_fit_run ranked start final \<and>
      res_unallocated (fst (allocateSpace 0 [?A, ?B, ?C] [0, 1] ?st)) = unallocated final"
    by blast
  have ranked: "sortedItems_by_density [?A, ?B, ?C] = [?B, ?A, ?C]"
    by (simp add: sortedItems_by_density_def array_sort_def density_comparator_def density_def
          num_sub_def double_round_examples example_item_def)
  have c: "map alloc_item (res_allocations (fst (allocateSpace 0 [?A, ?B, ?C] [0, 1] ?st))) =
             [?B, ?A]"
    "map allocatedSpace (res_allocations (fst (allocateSpace 0 [?A, ?B, ?C] [0, 1] ?st))) = [0, 1]"
    "res_unallocated (fst (allocateSpace 0 [?A, ?B, ?C] [0, 1] ?st)) = [?C]"
    unfolding allocateSpace_def ranked
    by (simp_all add: allocation_start_def allocate_item_def example_store_def example_space_def
          example_item_def Let_def)
  show ?thesis
    using w e c by - (intro conjI; assumption)
qed

text \<open>
  The claim as worded asks for the smallest positive leftover. With a space that has 5
  units available at address 0 and one that has 8 at address 1, an item of quantity 5
  goes to address 0, where the leftover is zero, and not to address 1, where it is 3.
\<close>

theorem greedy_exact_fit_counterexample:
  "map allocatedSpace
     (res_allocations (fst (allocateSpace 0 [example_item ''INV001'' ''Headphones'' 5 1 1] [0, 1]
        (example_store (example_space 10 5) (example_space 8 0))))) = [0] \<and>
   available (example_store (example_space 10 5) (example_space 8 0) 0) - 5 = 0 \<and>
   available (example_store (example_space 10 5) (example_space 8 0) 1) - 5 = 3"
  by (simp add: allocateSpace_def sortedItems_by_density_def array_sort_def allocation_start_def
        allocate_item_def example_store_def example_space_def example_item_def Let_def)

text \<open>
  The ranking goes by the rounded quotient: the first item below has the smaller exact
  quotient, both quotients are the same double, and the sort leaves the two items in
  their original order.
\<close>

lemma density_rounding_tie:
  "item_value (example_item ''INV004'' ''Cable'' 1 1 (6004799503160661 / 18014398509481984)) /
     weight (example_item ''INV004'' ''Cable'' 1 1 (6004799503160661 / 18014398509481984))
   < item_value (example_item ''INV005'' ''Label'' 1 3 1) / weight (example_item ''INV005'' ''Label'' 1 3 1) \<and>
   density (example_item ''INV004'' ''Cable'' 1 1 (6004799503160661 / 18014398509481984)) =
     density (example_item ''INV005'' ''Label'' 1 3 1) \<and>
   sortedItems_by_density
     [example_item ''INV004'' ''Cable'' 1 1 (6004799503160661 / 18014398509481984),
      example_item ''INV005'' ''Label'' 1 3 1] =
     [example_item ''INV004'' ''Cable'' 1 1 (6004799503160661 / 18014398509481984),
      example_item ''INV005'' ''Label'' 1 3 1]"
  by (simp add: sortedItems_by_density_def array_sort_def density_comparator_def density_def
        num_sub_def double_round_examples example_item_def)

section \<open>Verification: the warehouse graph\<close>

lemma square_set_cell:
  "square n g \<Longrightarrow> i < n \<Longrightarrow> j < n \<Longrightarrow> square n (set_cell g i j v)"
  by (auto simp: square_def set_cell_def nth_list_update)

lemma nth_set_cell:
  "square n g \<Longrightarrow> i < n \<Longrightarrow> j < n \<Longrightarrow> a < n \<Longrightarrow> b < n \<Longrightarrow>
   set_cell g i j v ! a ! b = (if a = i \<and> b = j then v else g ! a ! b)"
  by (auto simp: square_def set_cell_def nth_list_update)

lemma diag_fold:
  "square n g \<Longrightarrow> k \<le> n \<Longrightarrow>
   square n (fold (\<lambda>i g. set_cell g i i v) [0..<k] g) \<and>
   (\<forall>a < n. \<forall>b < n. fold (\<lambda>i g. set_cell g i i v) [0..<k] g ! a ! b =
        (if a = b \<and> a < k then v else g ! a ! b))"
proof (induction k)
  case 0
  then show ?case by simp
next
  case (Suc k)
  then have ih: "square n (fold (\<lambda>i g. set_cell g i i v) [0..<k] g)"
    "\<forall>a < n. \<forall>b < n. fold (\<lambda>i g. set_cell g i i v) [0..<k] g ! a ! b =
        (if a = b \<and> a < k then v else g ! a ! b)"
    by simp_all
  have kn: "k < n" using Suc.prems by simp
  show ?case
    using ih kn by (auto simp: square_set_cell nth_set_cell)
qed

lemma fill_row_fold:
  assumes "square n g" "i < n" "m \<le> n"
  shows "square n (fold (\<lambda>j g. let d = f j in set_cell (set_cell g i j d) j i d) [i + 1..<m] g) \<and>
   (\<forall>a < n. \<forall>b < n.
      fold (\<lambda>j g. let d = f j in set_cell (set_cell g i j d) j i d) [i + 1..<m] g ! a ! b =
        (if a = i \<and> i < b \<and> b < m then f b
         else if b = i \<and> i < a \<and> a < m then f a else g ! a ! b))"
  using assms(3)
proof (induction m)
  case 0
  then show ?case using assms by simp
next
  case (Suc m)
  let ?F = "\<lambda>j g. let d = f j in set_cell (set_cell g i j d) j i d"
  define G where "G = fold ?F [i + 1..<m] g"
  from Suc have ih: "square n G"
    "\<forall>a < n. \<forall>b < n. G ! a ! b =
        (if a = i \<and> i < b \<and> b < m then f b
         else if b = i \<and> i < a \<and> a < m then f a else g ! a ! b)"
    by (simp_all add: G_def)
  have mn: "m < n" using Suc.prems by simp
  show ?case
  proof (cases "i + 1 \<le> m")
    case False
    then have "[i + 1..<Suc m] = []" by simp
    with False assms show ?thesis by auto
  next
    case True
    then have unroll: "[i + 1..<Suc m] = [i + 1..<m] @ [m]" by simp
    have step: "fold ?F [i + 1..<Suc m] g = set_cell (set_cell G i m (f m)) m i (f m)"
      unfolding unroll G_def by (simp add: Let_def)
    have sq1: "square n (set_cell G i m (f m))"
      using ih(1) assms(2) mn by (rule square_set_cell)
    have sq2: "square n (set_cell (set_cell G i m (f m)) m i (f m))"
      using sq1 mn assms(2) by (rule square_set_cell)
    have cells: "set_cell (set_cell G i m (f m)) m i (f m) ! a ! b =
        (if a = i \<and> i < b \<and> b < Suc m then f b
         else if b = i \<and> i < a \<and> a < Suc m then f a else g ! a ! b)"
      if ab: "a < n" "b < n" for a b
    proof -
      have e1: "set_cell (set_cell G i m (f m)) m i (f m) ! a ! b =
            (if a = m \<and> b = i then f m else set_cell G i m (f m) ! a ! b)"
        by (rule nth_set_cell[OF sq1 mn assms(2) ab])
      have e2: "set_cell G i m (f m) ! a ! b = (if a = i \<and> b = m then f m else G ! a ! b)"
        by (rule nth_set_cell[OF ih(1) assms(2) mn ab])
      have e3: "G ! a ! b =
        (if a = i \<and> i < b \<and> b < m then f b
         else if b = i \<and> i < a \<and> a < m then f a else g ! a ! b)"
        using ih(2) ab by blast
      have im: "i < m" using True by simp
      show ?thesis
        unfolding e1 e2 e3 using im by (auto simp: less_Suc_eq)
    qed
    show ?thesis
      unfolding step using sq2 cells by blast
  qed
qed


lemma fill_row_cells:
  assumes "square (length locs) g" "i < length locs"
  shows "square (length locs) (fill_row locs i g) \<and>
   (\<forall>a < length locs. \<forall>b < length locs.
      fill_row locs i g ! a ! b =
        (if a = i \<and> i < b then calculateDistance (locs ! i) (locs ! b)
         else if b = i \<and> i < a then calculateDistance (locs ! i) (locs ! a) else g ! a ! b))"
  using fill_row_fold[OF assms order_refl, of "\<lambda>j. calculateDistance (locs ! i) (locs ! j)"]
  unfolding fill_row_def by simp

lemma fill_rows_fold:
  assumes "square (length locs) g" "k \<le> length locs"
  shows "square (length locs) (fold (fill_row locs) [0..<k] g) \<and>
   (\<forall>a < length locs. \<forall>b < length locs.
      fold (fill_row locs) [0..<k] g ! a ! b =
        (if a < b \<and> a < k then calculateDistance (locs ! a) (locs ! b)
         else if b < a \<and> b < k then calculateDistance (locs ! b) (locs ! a) else g ! a ! b))"
  using assms(2)
proof (induction k)
  case 0
  then show ?case using assms by simp
next
  case (Suc k)
  define G where "G = fold (fill_row locs) [0..<k] g"
  from Suc have ih: "square (length locs) G"
    "\<forall>a < length locs. \<forall>b < length locs. G ! a ! b =
        (if a < b \<and> a < k then calculateDistance (locs ! a) (locs ! b)
         else if b < a \<and> b < k then calculateDistance (locs ! b) (locs ! a) else g ! a ! b)"
    by (simp_all add: G_def)
  have kn: "k < length locs" using Suc.prems by simp
  have step: "fold (fill_row locs) [0..<Suc k] g = fill_row locs k G"
    by (simp add: G_def)
  note row = fill_row_cells[OF ih(1) kn]
  have cells: "fill_row locs k G ! a ! b =
        (if a < b \<and> a < Suc k then calculateDistance (locs ! a) (locs ! b)
         else if b < a \<and> b < Suc k then calculateDistance (locs ! b) (locs ! a) else g ! a ! b)"
    if ab: "a < length locs" "b < length locs" for a b
  proof -
    have e1: "fill_row locs k G ! a ! b =
        (if a = k \<and> k < b then calculateDistance (locs ! k) (locs ! b)
         else if b = k \<and> k < a then calculateDistance (locs ! k) (locs ! a) else G ! a ! b)"
      using row ab by blast
    have e2: "G ! a ! b =
        (if a < b \<and> a < k then calculateDistance (locs ! a) (locs ! b)
         else if b < a \<and> b < k then calculateDistance (locs ! b) (locs ! a) else g ! a ! b)"
      using ih(2) ab by blast
    show ?thesis unfolding e1 e2 by (auto simp: less_Suc_eq)
  qed
  show ?case unfolding step using row cells by blast
qed

lemma calculateDistance_sym: "calculateDistance a b = calculateDistance b a"
  by (simp add: calculateDistance_def Let_def abs_minus_commute split: option.splits)

lemma calculateDistance_self:
  "aisle a \<noteq> [] \<Longrightarrow> calculateDistance a a = Fin 0"
  by (cases "aisle a") (simp_all add: calculateDistance_def charCodeAt0_def)

lemma graph_cells:
  fixes locs p
  defines "g \<equiv> graph (initializeWarehouseGraph locs p)"
  shows "square (length locs) g \<and>
    (\<forall>a < length locs. \<forall>b < length locs.
       g ! a ! b = (if a = b then Fin 0 else calculateDistance (locs ! a) (locs ! b)))"
proof -
  let ?n = "length locs"
  let ?g0 = "replicate ?n (replicate ?n PInf)"
  define g1 where "g1 = fold (\<lambda>i g. set_cell g i i (Fin 0)) [0..<?n] ?g0"
  have sq0: "square ?n ?g0" by (simp add: square_def)
  from diag_fold[OF sq0 order_refl, of "Fin 0"]
  have sq1: "square ?n g1"
    and d1: "\<forall>a < ?n. \<forall>b < ?n. g1 ! a ! b = (if a = b \<and> a < ?n then Fin 0 else ?g0 ! a ! b)"
    by (simp_all add: g1_def)
  have g: "g = fold (fill_row locs) [0..<?n] g1"
    by (simp add: g_def initializeWarehouseGraph_def Let_def g1_def)
  note fr = fill_rows_fold[OF sq1 order_refl]
  have cells: "g ! a ! b = (if a = b then Fin 0 else calculateDistance (locs ! a) (locs ! b))"
    if ab: "a < ?n" "b < ?n" for a b
  proof -
    have e1: "g ! a ! b =
        (if a < b \<and> a < ?n then calculateDistance (locs ! a) (locs ! b)
         else if b < a \<and> b < ?n then calculateDistance (locs ! b) (locs ! a) else g1 ! a ! b)"
      unfolding g using fr ab by blast
    have e2: "g1 ! a ! b = (if a = b \<and> a < ?n then Fin 0 else ?g0 ! a ! b)"
      using d1 ab by blast
    show ?thesis
      unfolding e1 e2 using ab calculateDistance_sym[of "locs ! b" "locs ! a"]
      by (auto simp: not_less)
  qed
  from fr have "square ?n g" unfolding g by blast
  with cells show ?thesis by blast
qed


lemma locations_initialize: "locations (initializeWarehouseGraph locs p) = locs"
  by (simp add: initializeWarehouseGraph_def Let_def)

lemma calculateDistance_formula:
  assumes "aisle a \<noteq> []" "aisle b \<noteq> []"
  shows "calculateDistance a b =
     Fin (of_int (10 * \<bar>aisle_number (aisle a) - aisle_number (aisle b)\<bar>
                  + 5 * \<bar>shelf a - shelf b\<bar> + 2 * \<bar>position a - position b\<bar>))"
proof -
  obtain c cs where a: "aisle a = c # cs" using assms(1) by (cases "aisle a") auto
  obtain e es where b: "aisle b = e # es" using assms(2) by (cases "aisle b") auto
  show ?thesis
    by (simp add: calculateDistance_def charCodeAt0_def aisle_number_def a b Let_def)
qed

lemma aisle_letters:
  "map (\<lambda>c. aisle_number [c]) ''ABCDEFGHIJKLMNOPQRSTUVWXYZ'' =
     [1, 2, 3, 4, 5, 6, 7, 8, 9, 10, 11, 12, 13, 14, 15, 16, 17, 18, 19, 20, 21, 22, 23, 24, 25, 26]"
  by (simp add: aisle_number_def)

text \<open>
  Claim C7, as amended. \<open>initializeWarehouseGraph\<close> stores the location list as it is
  given, repeated locations included, and builds a square matrix over the indices of
  that list: it is symmetric, its diagonal is zero, and the entry of two different
  indices is the distance of their locations, which for aisles that are not empty is
  \<open>10 * |aisle difference| + 5 * |shelf difference| + 2 * |position difference|\<close> with
  the aisle letters \<open>A\<close> to \<open>Z\<close> numbered 1 to 26. The result does not depend on the
  planner the method is called on.
\<close>

theorem initializeWarehouseGraph_matrix:
  "locations (initializeWarehouseGraph locs p) = locs \<and>
   length (graph (initializeWarehouseGraph locs p)) = length locs \<and>
   (\<forall>i < length locs. \<forall>j < length locs.
      length (graph (initializeWarehouseGraph locs p) ! i) = length locs \<and>
      graph (initializeWarehouseGraph locs p) ! i ! j =
        graph (initializeWarehouseGraph locs p) ! j ! i \<and>
      graph (initializeWarehouseGraph locs p) ! i ! i = Fin 0 \<and>
      (i \<noteq> j \<longrightarrow> graph (initializeWarehouseGraph locs p) ! i ! j =
                  calculateDistance (locs ! i) (locs ! j))) \<and>
   (\<forall>a b. aisle a \<noteq> [] \<and> aisle b \<noteq> [] \<longrightarrow>
      calculateDistance a b =
        Fin (of_int (10 * \<bar>aisle_number (aisle a) - aisle_number (aisle b)\<bar>
                     + 5 * \<bar>shelf a - shelf b\<bar> + 2 * \<bar>position a - position b\<bar>))) \<and>
   map (\<lambda>c. aisle_number [c]) ''ABCDEFGHIJKLMNOPQRSTUVWXYZ'' =
     [1, 2, 3, 4, 5, 6, 7, 8, 9, 10, 11, 12, 13, 14, 15, 16, 17, 18, 19, 20, 21, 22, 23, 24, 25, 26] \<and>
   initializeWarehouseGraph locs p = initializeWarehouseGraph locs q"
proof -
  define g where "g = graph (initializeWarehouseGraph locs p)"
  have sq: "square (length locs) g"
    and cells: "\<forall>a < length locs. \<forall>b < length locs.
       g ! a ! b = (if a = b then Fin 0 else calculateDistance (locs ! a) (locs ! b))"
    using graph_cells[of locs p] by (simp_all add: g_def)
  have per: "length (g ! i) = length locs \<and> g ! i ! j = g ! j ! i \<and> g ! i ! i = Fin 0 \<and>
      (i \<noteq> j \<longrightarrow> g ! i ! j = calculateDistance (locs ! i) (locs ! j))"
    if ij: "i < length locs" "j < length locs" for i j
  proof -
    have "g ! i ! j = (if i = j then Fin 0 else calculateDistance (locs ! i) (locs ! j))"
      and "g ! j ! i = (if j = i then Fin 0 else calculateDistance (locs ! j) (locs ! i))"
      and "g ! i ! i = Fin 0"
      using cells ij by simp_all
    then show ?thesis
      using sq ij calculateDistance_sym[of "locs ! i" "locs ! j"] by (simp add: square_def)
  qed
  have same: "initializeWarehouseGraph locs p = initializeWarehouseGraph locs q"
    by (simp add: initializeWarehouseGraph_def)
  have len: "length g = length locs" using sq by (simp add: square_def)
  show ?thesis
    unfolding g_def[symmetric]
    using locations_initialize[of locs p] len per calculateDistance_formula aisle_letters same
    by (simp add: g_def)
qed


theorem initializeWarehouseGraph_matrix_witness:
  "aisle loc_A11 \<noteq> [] \<and> aisle loc_B21 \<noteq> [] \<and> (0::nat) \<noteq> 2 \<and>
   graph (initializeWarehouseGraph [loc_A11, loc_A12, loc_B21] new_planner) ! 0 ! 2 = Fin 15 \<and>
   graph (initializeWarehouseGraph [loc_A11, loc_A12, loc_B21] new_planner) ! 2 ! 0 = Fin 15 \<and>
   graph (initializeWarehouseGraph [loc_A11, loc_A12, loc_B21] new_planner) ! 2 ! 2 = Fin 0"
proof -
  let ?locs = "[loc_A11, loc_A12, loc_B21]"
  let ?g = "graph (initializeWarehouseGraph ?locs new_planner)"
  note t = initializeWarehouseGraph_matrix[of ?locs new_planner new_planner]
  from t have cells: "\<forall>i < length ?locs. \<forall>j < length ?locs.
      length (?g ! i) = length ?locs \<and> ?g ! i ! j = ?g ! j ! i \<and> ?g ! i ! i = Fin 0 \<and>
      (i \<noteq> j \<longrightarrow> ?g ! i ! j = calculateDistance (?locs ! i) (?locs ! j))"
    by blast
  from t have formula: "calculateDistance loc_A11 loc_B21 =
        Fin (of_int (10 * \<bar>aisle_number (aisle loc_A11) - aisle_number (aisle loc_B21)\<bar>
                     + 5 * \<bar>shelf loc_A11 - shelf loc_B21\<bar>
                     + 2 * \<bar>position loc_A11 - position loc_B21\<bar>))"
    by (simp add: loc_A11_def loc_B21_def)
  have d: "calculateDistance loc_A11 loc_B21 = Fin 15"
    unfolding formula by (simp add: loc_A11_def loc_B21_def aisle_number_def)
  have "?g ! 0 ! 2 = calculateDistance (?locs ! 0) (?locs ! 2)"
    and "?g ! 2 ! 0 = ?g ! 0 ! 2" and "?g ! 2 ! 2 = Fin 0"
    using cells[rule_format, of 0 2] cells[rule_format, of 2 0] cells[rule_format, of 2 2]
    by simp_all
  with d show ?thesis by (simp add: loc_A11_def loc_B21_def)
qed

text \<open>
  The claim as worded says that the method deduplicates the location set. Called on a
  list that holds the same location twice, it stores both and builds a matrix of two
  rows.
\<close>

theorem initializeWarehouseGraph_keeps_duplicates_counterexample:
  "locations (initializeWarehouseGraph [loc_A11, loc_A11] new_planner) = [loc_A11, loc_A11] \<and>
   length (graph (initializeWarehouseGraph [loc_A11, loc_A11] new_planner)) = 2"
  using graph_cells[of "[loc_A11, loc_A11]" new_planner]
  by (simp add: locations_initialize square_def)

subsection \<open>Unknown locations\<close>

lemma findIndex_None: "findIndex P xs = None \<longleftrightarrow> (\<forall>x \<in> set xs. \<not> P x)"
  by (induction xs) auto

lemma findLocationIndex_None: "findLocationIndex p l = None \<longleftrightarrow> \<not> known_location p l"
  by (simp add: findLocationIndex_def findIndex_None known_location_def)

text \<open>
  Claim C8. \<open>findOptimalPickingPath\<close> throws the error exactly when the start location
  or one of the destinations agrees with no location of the planner in all of aisle,
  shelf and position. Whenever it throws, the outcome is the error and not a result, and
  the planner is the one the call started with.
\<close>

theorem findOptimalPickingPath_throws_iff:
  "(findOptimalPickingPath p startLocation destinationLocations = Some (Inl InvalidLocation, p)
      \<longleftrightarrow> (\<not> known_location p startLocation \<or>
           (\<exists>d \<in> set destinationLocations. \<not> known_location p d))) \<and>
   (\<forall>e q. findOptimalPickingPath p startLocation destinationLocations = Some (Inl e, q)
      \<longrightarrow> e = InvalidLocation \<and> q = p)"
proof -
  let ?dest = "map (findLocationIndex p) destinationLocations"
  have unknown_dest: "None \<in> set ?dest \<longleftrightarrow>
      (\<exists>d \<in> set destinationLocations. \<not> known_location p d)"
    unfolding findLocationIndex_None[symmetric] set_map image_iff by (metis (full_types))
  show ?thesis
  proof (cases "findLocationIndex p startLocation")
    case None
    then have "\<not> known_location p startLocation"
      by (simp add: findLocationIndex_None)
    with None show ?thesis
      by (simp add: findOptimalPickingPath_def Let_def)
  next
    case (Some start)
    then have known: "known_location p startLocation"
      using findLocationIndex_None[of p startLocation] by auto
    show ?thesis
    proof (cases "None \<in> set ?dest")
      case True
      with Some unknown_dest show ?thesis
        by (simp add: findOptimalPickingPath_def Let_def)
    next
      case False
      with unknown_dest have all_known: "\<not> (\<exists>d \<in> set destinationLocations. \<not> known_location p d)"
        by simp
      have "findOptimalPickingPath p startLocation destinationLocations \<noteq> Some (Inl e, q)" for e q
        using Some False
        by (simp add: findOptimalPickingPath_def Let_def split: option.splits)
      with known all_known show ?thesis by blast
    qed
  qed
qed

theorem findOptimalPickingPath_throws_iff_witness:
  "findOptimalPickingPath (initializeWarehouseGraph [loc_A11, loc_A12] new_planner)
     loc_A11 [loc_B21]
   = Some (Inl InvalidLocation, initializeWarehouseGraph [loc_A11, loc_A12] new_planner)"
  using findOptimalPickingPath_throws_iff[of
          "initializeWarehouseGraph [loc_A11, loc_A12] new_planner" loc_A11 "[loc_B21]"]
  by (simp add: known_location_def locations_initialize loc_A11_def loc_A12_def loc_B21_def)

section \<open>Verification: shortest distances\<close>

subsection \<open>The matrix of an initialized planner is a metric\<close>



subsection \<open>Floyd-Warshall and walks on a metric\<close>





subsection \<open>The primitive on a metric\<close>



















section \<open>Verification: empty inputs\<close>

lemma read_cell_zero_row:
  "0 \<le> cap \<Longrightarrow> read_cell (map (\<lambda>w. Fin 0) [0..cap]) cap = Some (Fin 0)"
  by (simp add: read_cell_def)

lemma optimizeValue_no_items:
  assumes "0 \<le> cap" and "cap \<le> 4294967294"
  shows "optimizeValue [] cap =
           Inr \<lparr>selectedItems = [], totalValue = Some (Fin 0), totalWeight = 0,
                 knapsack_performance =
                   \<lparr>algorithm = ''0/1 Knapsack'', operation = ''Value Optimization'',
                     dataSize = 0, perf_comparisons = Some 0, perf_swaps = None\<rparr>\<rparr>"
  using assms read_cell_zero_row[OF assms(1)]
  by (simp add: optimizeValue_def dp_table_def Let_def)

lemma picking_no_destinations:
  assumes "findLocationIndex p startLocation = Some i"
  shows "findOptimalPickingPath p startLocation [] =
           Some (Inr \<lparr>path = [i], totalDistance = Fin 0, route_visitedNodes = [i],
                       route_performance =
                         \<lparr>algorithm = ''Dijkstra's Algorithm'',
                           operation = ''Shortest Path Finding'',
                           dataSize = length (locations p),
                           perf_comparisons = Some 0, perf_swaps = None\<rparr>\<rparr>, p)"
proof -
  have "picking_loop (graph p) []
          \<lparr>pk_path = [i], pk_visited = [i], pk_visitedNodes = [i],
           pk_totalDistance = Fin 0, pk_currentLocation = i, pk_comparisons = 0\<rparr>
        = Some \<lparr>pk_path = [i], pk_visited = [i], pk_visitedNodes = [i],
           pk_totalDistance = Fin 0, pk_currentLocation = i, pk_comparisons = 0\<rparr>"
    by (subst picking_loop.simps) simp
  with assms show ?thesis
    by (simp add: findOptimalPickingPath_def Let_def)
qed

lemma hashMap_built_from_nothing:
  "results (HashMapSearch_search (buildHashMap S [] (after_builds S builds)) searchTerm fld) = []"
proof (cases "fld \<in> set indexed_fields")
  case True
  then show ?thesis
    by (simp add: results_lookup map_of_buildHashMap build_fieldMap_def lookup_items_def)
next
  case False
  with maps_wf_after_builds[of S builds] have "map_of (after_builds S builds) fld = None"
    unfolding maps_wf_def by (cases "map_of (after_builds S builds) fld") auto
  with False show ?thesis
    by (simp add: results_lookup map_of_buildHashMap)
qed

text \<open>
  Claim C9, as amended. On an empty item list both sorts return the empty list, the
  scan search returns no result, the prefix index built from it answers every search
  with no result, the allocator returns no allocation and no unallocated item and leaves
  the store as it was, and the value optimizer, for a capacity from 0 to \<open>2 ^ 32 - 2\<close>
  (so that the capacity plus one is an array length), returns no item, value zero and
  weight zero; the route planner, for a known start and
  no destination, returns the path that holds the start only, with distance zero. None
  of these calls ends in an error.
\<close>

theorem empty_inputs_give_empty_results:
  "sortedItems (MergeSort_sort [] sortBy) = [] \<and>
   sortedItems (QuickSort_sort [] sortBy) = [] \<and>
   results (BinarySearch_search S [] searchTerm fld) = [] \<and>
   results (HashMapSearch_search (buildHashMap S [] (after_builds S builds)) searchTerm fld) = [] \<and>
   res_allocations (fst (allocateSpace sortCalls [] availableSpaces st)) = [] \<and>
   res_unallocated (fst (allocateSpace sortCalls [] availableSpaces st)) = [] \<and>
   snd (allocateSpace sortCalls [] availableSpaces st) = st \<and>
   (0 \<le> cap \<and> cap \<le> 4294967294 \<longrightarrow>
      (\<exists>perf. optimizeValue [] cap =
         Inr \<lparr>selectedItems = [], totalValue = Some (Fin 0), totalWeight = 0,
               knapsack_performance = perf\<rparr>)) \<and>
   (\<forall>i. findLocationIndex p startLocation = Some i \<longrightarrow>
      (\<exists>perf. findOptimalPickingPath p startLocation [] =
         Some (Inr \<lparr>path = [i], totalDistance = Fin 0, route_visitedNodes = [i],
                     route_performance = perf\<rparr>, p))) \<and>
   (known_location p startLocation \<longrightarrow> (\<exists>i. findLocationIndex p startLocation = Some i))"
proof -
  have "sortedItems (MergeSort_sort [] sortBy) = []"
    by (simp add: MergeSort_sort_def mergeSort.simps)
  moreover have "sortedItems (QuickSort_sort [] sortBy) = []"
    by (simp add: QuickSort_sort_def quickSort.simps)
  moreover have "results (BinarySearch_search S [] searchTerm fld) = []"
    by (simp add: BinarySearch_search_def array_sort_def)
  moreover have "allocateSpace sortCalls [] availableSpaces st =
      (\<lparr>res_allocations = [], res_unallocated = [],
        alloc_performance = \<lparr>algorithm = ''Greedy Best-Fit'', operation = ''Space Allocation'',
          dataSize = 0, perf_comparisons = Some sortCalls, perf_swaps = None\<rparr>\<rparr>, st)"
    by (simp add: allocateSpace_def sortedItems_by_density_def array_sort_def
          allocation_start_def Let_def)
  moreover have "known_location p startLocation \<longrightarrow>
      (\<exists>i. findLocationIndex p startLocation = Some i)"
    using findLocationIndex_None[of p startLocation] by auto
  ultimately show ?thesis
    using hashMap_built_from_nothing[of S builds searchTerm fld]
      optimizeValue_no_items[of cap] picking_no_destinations[of p startLocation]
    by simp
qed

theorem empty_inputs_give_empty_results_witness:
  "(0::int) \<le> 10 \<and> (10::int) \<le> 4294967294 \<and>
   optimizeValue [] 10 =
     Inr \<lparr>selectedItems = [], totalValue = Some (Fin 0), totalWeight = 0,
           knapsack_performance =
             \<lparr>algorithm = ''0/1 Knapsack'', operation = ''Value Optimization'',
               dataSize = 0, perf_comparisons = Some 0, perf_swaps = None\<rparr>\<rparr> \<and>
   findLocationIndex (initializeWarehouseGraph [loc_A11, loc_A12] new_planner) loc_A12 = Some 1 \<and>
   (\<exists>perf. findOptimalPickingPath (initializeWarehouseGraph [loc_A11, loc_A12] new_planner)
             loc_A12 [] =
      Some (Inr \<lparr>path = [1], totalDistance = Fin 0, route_visitedNodes = [1],
                  route_performance = perf\<rparr>,
            initializeWarehouseGraph [loc_A11, loc_A12] new_planner))"
proof -
  have idx: "findLocationIndex (initializeWarehouseGraph [loc_A11, loc_A12] new_planner) loc_A12
               = Some 1"
    by (simp add: findLocationIndex_def locations_initialize loc_A11_def loc_A12_def)
  from empty_inputs_give_empty_results[of F_name "\<lambda>v. []" "[]" F_name "[]" 0 "[]"
         "example_store (example_space 10 5) (example_space 8 0)" 10
         "initializeWarehouseGraph [loc_A11, loc_A12] new_planner" loc_A12]
  have k: "\<exists>perf. optimizeValue [] 10 =
         Inr \<lparr>selectedItems = [], totalValue = Some (Fin 0), totalWeight = 0,
               knapsack_performance = perf\<rparr>"
    and r: "\<exists>perf. findOptimalPickingPath (initializeWarehouseGraph [loc_A11, loc_A12] new_planner)
             loc_A12 [] =
      Some (Inr \<lparr>path = [1], totalDistance = Fin 0, route_visitedNodes = [1],
                  route_performance = perf\<rparr>,
            initializeWarehouseGraph [loc_A11, loc_A12] new_planner)"
    using idx by simp_all
  from k have "optimizeValue [] 10 =
     Inr \<lparr>selectedItems = [], totalValue = Some (Fin 0), totalWeight = 0,
           knapsack_performance =
             \<lparr>algorithm = ''0/1 Knapsack'', operation = ''Value Optimization'',
               dataSize = 0, perf_comparisons = Some 0, perf_swaps = None\<rparr>\<rparr>"
    by (auto simp: optimizeValue_def Let_def split: prod.splits)
  with idx r show ?thesis by simp
qed

text \<open>
  The claim as worded holds for every capacity. With no items and the positive capacity
  \<open>2 ^ 32 - 1\<close> the row of the table would have \<open>2 ^ 32\<close> cells, which is not an array
  length: the creation of the table throws, and no result is returned.
\<close>

theorem optimizeValue_array_length_counterexample:
  "optimizeValue [] 4294967295 = Inl RangeError"
  by (simp add: optimizeValue_def)

section \<open>Verification: the value optimizer\<close>

text \<open>
  Claim C2 at a concrete input. An item of weight 0 and value 5 followed by an item of
  weight 1 and value 10, with capacity 1: both fit, since the rounded weights add up to
  1, and together they are worth 15; the table returns 10 and selects the second item
  only. Column 0 of the table is never written, so an item of rounded weight 0 is not
  counted there.
\<close>

theorem knapsack_zero_weight_not_optimal:
  "(\<exists>perf. optimizeValue
       [example_item ''INV009'' ''Label'' 1 0 5, example_item ''INV010'' ''Cable'' 1 1 10] 1 =
     Inr \<lparr>selectedItems = [example_item ''INV010'' ''Cable'' 1 1 10],
           totalValue = Some (Fin 10), totalWeight = 1, knapsack_performance = perf\<rparr>) \<and>
   brute_force_value
     [example_item ''INV009'' ''Label'' 1 0 5, example_item ''INV010'' ''Cable'' 1 1 10] 1 = 15"
proof -
  have "brute_force_value
     [example_item ''INV009'' ''Label'' 1 0 5, example_item ''INV010'' ''Cable'' 1 1 10] 1 = 15"
    by (simp add: brute_force_value_def feasible_def rounded_weight_def selection_value_def
          example_item_def Let_def)
  moreover have "\<exists>perf. optimizeValue
       [example_item ''INV009'' ''Label'' 1 0 5, example_item ''INV010'' ''Cable'' 1 1 10] 1 =
     Inr \<lparr>selectedItems = [example_item ''INV010'' ''Cable'' 1 1 10],
           totalValue = Some (Fin 10), totalWeight = 1, knapsack_performance = perf\<rparr>"
    by (simp add: optimizeValue_def dp_table_def dp_row_def dp_cell_def read_cell_def
          example_item_def Let_def upto.simps)
  ultimately show ?thesis by blast
qed

subsection \<open>The reference value obeys the recurrence of the table\<close>

lemma set_subseqs_snoc:
  "set (subseqs (xs @ [x])) = set (subseqs xs) \<union> (\<lambda>s. s @ [x]) ` set (subseqs xs)"
  by (induction xs) (simp_all add: Let_def image_Un image_image Un_ac)

lemma rounded_weight_snoc [simp]: "rounded_weight (s @ [x]) = rounded_weight s + \<lceil>weight x\<rceil>"
  by (simp add: rounded_weight_def)

lemma selection_value_snoc [simp]: "selection_value (s @ [x]) = selection_value s + item_value x"
  by (simp add: selection_value_def)

lemma brute_force_value_alt:
  "brute_force_value xs w = Max (selection_value ` set (feasible xs w))"
  by (simp add: brute_force_value_def)

lemma set_feasible_snoc:
  "set (feasible (xs @ [x]) w) =
     set (feasible xs w) \<union> (\<lambda>s. s @ [x]) ` set (feasible xs (w - \<lceil>weight x\<rceil>))"
proof -
  have "set (feasible (xs @ [x]) w) =
        {s \<in> set (subseqs xs) \<union> (\<lambda>s. s @ [x]) ` set (subseqs xs). rounded_weight s \<le> w}"
    unfolding feasible_def set_filter set_subseqs_snoc ..
  also have "\<dots> = {s \<in> set (subseqs xs). rounded_weight s \<le> w} \<union>
        (\<lambda>s. s @ [x]) ` {s \<in> set (subseqs xs). rounded_weight s \<le> w - \<lceil>weight x\<rceil>}"
    by (auto simp del: in_set_subseqs)
  finally show ?thesis
    unfolding feasible_def set_filter .
qed

lemma rounded_weight_nonneg:
  assumes "\<forall>it \<in> set xs. 0 \<le> \<lceil>weight it\<rceil>" "sel \<in> set (subseqs xs)"
  shows "0 \<le> rounded_weight sel"
proof -
  have "set sel \<subseteq> set xs"
    using assms(2) subseqs_powset[of xs] by (metis PowD image_eqI)
  with assms(1) have "\<forall>it \<in> set sel. 0 \<le> \<lceil>weight it\<rceil>" by blast
  then show ?thesis
    unfolding rounded_weight_def by (induction sel) auto
qed

lemma rounded_weight_pos:
  assumes "\<forall>it \<in> set xs. 1 \<le> \<lceil>weight it\<rceil>" "sel \<in> set (subseqs xs)" "sel \<noteq> []"
  shows "1 \<le> rounded_weight sel"
proof -
  have "set sel \<subseteq> set xs"
    using assms(2) subseqs_powset[of xs] by (metis PowD image_eqI)
  with assms(1) have a: "\<forall>it \<in> set sel. 1 \<le> \<lceil>weight it\<rceil>" by blast
  obtain y ys where s: "sel = y # ys" using assms(3) by (cases sel) auto
  have nn: "0 \<le> (\<Sum>it \<leftarrow> ys. \<lceil>weight it\<rceil>)"
    using a s by (intro sum_list_nonneg) auto
  have y1: "1 \<le> \<lceil>weight y\<rceil>" using a s by simp
  have "rounded_weight sel = \<lceil>weight y\<rceil> + (\<Sum>it \<leftarrow> ys. \<lceil>weight it\<rceil>)"
    by (simp add: s rounded_weight_def)
  with y1 nn show ?thesis by linarith
qed

lemma Nil_feasible: "0 \<le> w \<Longrightarrow> [] \<in> set (feasible xs w)"
  by (simp add: feasible_def rounded_weight_def)

lemma feasible_negative:
  assumes "\<forall>it \<in> set xs. 0 \<le> \<lceil>weight it\<rceil>" "w < 0"
  shows "set (feasible xs w) = {}"
proof -
  have "\<not> rounded_weight sel \<le> w" if "sel \<in> set (subseqs xs)" for sel
    using rounded_weight_nonneg[OF assms(1) that] assms(2) by simp
  then show ?thesis
    unfolding feasible_def set_filter by blast
qed

lemma feasible_zero:
  assumes "\<forall>it \<in> set xs. 1 \<le> \<lceil>weight it\<rceil>"
  shows "set (feasible xs 0) = {[]}"
proof -
  have "sel = []" if "sel \<in> set (subseqs xs)" "rounded_weight sel \<le> 0" for sel
    using rounded_weight_pos[OF assms that(1)] that(2) by fastforce
  moreover have "[] \<in> set (feasible xs 0)" by (rule Nil_feasible) simp
  ultimately show ?thesis
    unfolding feasible_def set_filter by blast
qed

lemma brute_force_value_zero:
  assumes "\<forall>it \<in> set xs. 1 \<le> \<lceil>weight it\<rceil>"
  shows "brute_force_value xs 0 = 0"
  by (simp add: brute_force_value_alt feasible_zero[OF assms] selection_value_def)

lemma brute_force_value_Nil: "0 \<le> w \<Longrightarrow> brute_force_value [] w = 0"
  by (simp add: brute_force_value_def feasible_def rounded_weight_def selection_value_def)

lemma brute_force_value_snoc:
  assumes "\<forall>it \<in> set xs. 0 \<le> \<lceil>weight it\<rceil>" "0 \<le> w"
  shows "brute_force_value (xs @ [x]) w =
           (if \<lceil>weight x\<rceil> \<le> w
            then max (item_value x + brute_force_value xs (w - \<lceil>weight x\<rceil>))
                     (brute_force_value xs w)
            else brute_force_value xs w)"
proof (cases "\<lceil>weight x\<rceil> \<le> w")
  case False
  then have "set (feasible xs (w - \<lceil>weight x\<rceil>)) = {}"
    by (intro feasible_negative[OF assms(1)]) simp
  with False show ?thesis
    by (simp add: brute_force_value_alt set_feasible_snoc)
next
  case True
  let ?A = "selection_value ` set (feasible xs w)"
  let ?B = "selection_value ` set (feasible xs (w - \<lceil>weight x\<rceil>))"
  have A: "finite ?A" "?A \<noteq> {}"
    using Nil_feasible[OF assms(2), of xs] by auto
  have B: "finite ?B" "?B \<noteq> {}"
    using Nil_feasible[of "w - \<lceil>weight x\<rceil>" xs] True by auto
  have img: "selection_value ` set (feasible (xs @ [x]) w) = ?A \<union> (\<lambda>y. y + item_value x) ` ?B"
    unfolding set_feasible_snoc image_Un image_image by simp
  have "Max ((\<lambda>y. y + item_value x) ` ?B) = Max ?B + item_value x"
    using Max_add_commute[of ?B "\<lambda>y. y" "item_value x"] B by simp
  then have "Max (?A \<union> (\<lambda>y. y + item_value x) ` ?B) = max (Max ?A) (Max ?B + item_value x)"
    using A B by (simp add: Max_Un)
  with True show ?thesis
    by (simp add: brute_force_value_alt img max.commute add.commute)
qed


subsection \<open>The table holds the reference values\<close>

lemma read_cell_values:
  assumes "0 \<le> u" "u \<le> cap"
  shows "read_cell (map (\<lambda>w. Fin (f w)) [0..cap]) u = Some (Fin (f u))"
proof -
  have "nat u < length [0..cap]" using assms by simp
  moreover have "[0..cap] ! nat u = u" using assms by simp
  ultimately show ?thesis using assms by (simp add: read_cell_def)
qed

lemma num_max_Fin: "num_max (Fin a) (Fin b) = Fin (max a b)"
  by (simp add: max_def)

lemma dp_row_values:
  assumes "\<forall>it \<in> set (pre @ [item]). 0 < weight it"
  shows "dp_row (map (\<lambda>w. Fin (brute_force_value pre w)) [0..cap]) item cap =
         map (\<lambda>w. Fin (brute_force_value (pre @ [item]) w)) [0..cap]"
  unfolding dp_row_def
proof (rule map_cong[OF refl])
  fix w assume "w \<in> set [0..cap]"
  then have w: "0 \<le> w" "w \<le> cap" by simp_all
  let ?upper = "map (\<lambda>w. Fin (brute_force_value pre w)) [0..cap]"
  have ge1: "\<forall>it \<in> set (pre @ [item]). 1 \<le> \<lceil>weight it\<rceil>"
    using assms by simp
  have ge0: "\<forall>it \<in> set pre. 0 \<le> \<lceil>weight it\<rceil>"
    using assms by (auto intro: less_imp_le)
  have cw: "1 \<le> \<lceil>weight item\<rceil>" using assms by simp
  show "(if w = 0 then Fin 0 else dp_cell ?upper \<lceil>weight item\<rceil> (item_value item) w) =
        Fin (brute_force_value (pre @ [item]) w)"
  proof (cases "w = 0")
    case True
    then show ?thesis using brute_force_value_zero[OF ge1] by simp
  next
    case False
    have here: "read_cell ?upper w = Some (Fin (brute_force_value pre w))"
      by (rule read_cell_values[OF w])
    show ?thesis
    proof (cases "\<lceil>weight item\<rceil> \<le> w")
      case fits: True
      have "0 \<le> w - \<lceil>weight item\<rceil>" "w - \<lceil>weight item\<rceil> \<le> cap"
        using fits cw w by linarith+
      then have there: "read_cell ?upper (w - \<lceil>weight item\<rceil>) =
          Some (Fin (brute_force_value pre (w - \<lceil>weight item\<rceil>)))"
        by (rule read_cell_values)
      have "dp_cell ?upper \<lceil>weight item\<rceil> (item_value item) w =
            Fin (max (item_value item + brute_force_value pre (w - \<lceil>weight item\<rceil>))
                     (brute_force_value pre w))"
        unfolding dp_cell_def Let_def here there using fits by (simp add: num_max_Fin)
      with False fits brute_force_value_snoc[OF ge0 w(1), of item] show ?thesis by simp
    next
      case no: False
      have "dp_cell ?upper \<lceil>weight item\<rceil> (item_value item) w = Fin (brute_force_value pre w)"
        unfolding dp_cell_def here using no by simp
      with False no brute_force_value_snoc[OF ge0 w(1), of item] show ?thesis by simp
    qed
  qed
qed

lemma dp_rows_last:
  assumes "\<forall>it \<in> set (pre @ rest). 0 < weight it"
  shows "last (map (\<lambda>w. Fin (brute_force_value pre w)) [0..cap] #
               dp_rows (map (\<lambda>w. Fin (brute_force_value pre w)) [0..cap]) rest cap) =
         map (\<lambda>w. Fin (brute_force_value (pre @ rest) w)) [0..cap]"
  using assms
proof (induction rest arbitrary: pre)
  case Nil
  then show ?case by simp
next
  case (Cons item rest)
  have "\<forall>it \<in> set (pre @ [item]). 0 < weight it" using Cons.prems by simp
  note row = dp_row_values[OF this, of cap]
  have "\<forall>it \<in> set ((pre @ [item]) @ rest). 0 < weight it" using Cons.prems by simp
  from Cons.IH[OF this] show ?case
    by (simp add: Let_def row)
qed

lemma length_dp_rows: "length (dp_rows upper items cap) = length items"
  by (induction items arbitrary: upper) (simp_all add: Let_def)

lemma dp_table_last_row:
  assumes "\<forall>it \<in> set items. 0 < weight it"
  shows "dp_table items cap ! length items =
         map (\<lambda>w. Fin (brute_force_value items w)) [0..cap]"
proof -
  have zero: "map (\<lambda>w. Fin 0) [0..cap] = map (\<lambda>w. Fin (brute_force_value [] w)) [0..cap]"
    by (rule map_cong[OF refl]) (simp add: brute_force_value_Nil)
  have len: "length (dp_table items cap) = Suc (length items)"
    by (simp add: dp_table_def Let_def length_dp_rows)
  then have ne: "dp_table items cap \<noteq> []" by auto
  have "dp_table items cap ! length items = last (dp_table items cap)"
    by (simp add: last_conv_nth[OF ne] len)
  also have "\<dots> = map (\<lambda>w. Fin (brute_force_value ([] @ items) w)) [0..cap]"
    unfolding dp_table_def Let_def zero
    by (rule dp_rows_last) (use assms in simp)
  finally show ?thesis by simp
qed

subsection \<open>What the backtracking collects\<close>

lemma backtrack_collects:
  assumes "k \<le> length items"
  shows "\<exists>picked. fst (backtrack dp items k w (selected, weight_sum, cmp)) = selected @ picked \<and>
           fst (snd (backtrack dp items k w (selected, weight_sum, cmp))) =
             weight_sum + (\<Sum>it \<leftarrow> picked. weight it) \<and>
           subseq (rev picked) (take k items)"
  using assms
proof (induction k arbitrary: w selected weight_sum cmp)
  case 0
  then show ?case by simp
next
  case (Suc k)
  then have k: "k \<le> length items" "k < length items" by simp_all
  have tk: "take (Suc k) items = take k items @ [items ! k]"
    using k(2) by (simp add: take_Suc_conv_app_nth)
  show ?case
  proof (cases "0 < w")
    case False
    then show ?thesis by simp
  next
    case True
    show ?thesis
    proof (cases "strict_neq (read_cell (dp ! Suc k) w) (read_cell (dp ! k) w)")
      case take: True
      from Suc.IH[OF k(1), of "w - \<lceil>weight (items ! k)\<rceil>" "selected @ [items ! k]"
                    "weight_sum + weight (items ! k)" "cmp + 1"]
      obtain picked where p:
        "fst (backtrack dp items k (w - \<lceil>weight (items ! k)\<rceil>)
               (selected @ [items ! k], weight_sum + weight (items ! k), cmp + 1))
           = (selected @ [items ! k]) @ picked"
        "fst (snd (backtrack dp items k (w - \<lceil>weight (items ! k)\<rceil>)
               (selected @ [items ! k], weight_sum + weight (items ! k), cmp + 1)))
           = weight_sum + weight (items ! k) + (\<Sum>it \<leftarrow> picked. weight it)"
        "subseq (rev picked) (take k items)"
        by blast
      have "subseq (rev picked @ [items ! k]) (take k items @ [items ! k])"
        using p(3) by (rule list_emb_append_mono) simp
      then have "subseq (rev (items ! k # picked)) (take (Suc k) items)"
        unfolding tk by simp
      with p(1,2) True take show ?thesis
        by (intro exI[of _ "items ! k # picked"]) simp
    next
      case skip: False
      from Suc.IH[OF k(1), of w selected weight_sum "cmp + 1"]
      obtain picked where p:
        "fst (backtrack dp items k w (selected, weight_sum, cmp + 1)) = selected @ picked"
        "fst (snd (backtrack dp items k w (selected, weight_sum, cmp + 1)))
           = weight_sum + (\<Sum>it \<leftarrow> picked. weight it)"
        "subseq (rev picked) (take k items)"
        by blast
      have "subseq (rev picked) (take (Suc k) items)"
        unfolding tk using p(3) by (rule list_emb_prefix)
      with p(1,2) True skip show ?thesis
        by (intro exI[of _ picked]) simp
    qed
  qed
qed


text \<open>
  What holds of the value optimizer in general. Whenever it returns, the total weight is
  the sum of the true weights of the selected items, and these are a sub-selection of
  the input in its order. When moreover every weight is positive and the capacity is
  not negative, it returns, and the total value is the reference value: the divergence
  shown above needs an item whose rounded weight is zero.
\<close>

lemma optimizeValue_selection:
  assumes "optimizeValue items cap = Inr r"
  shows "totalWeight r = (\<Sum>it \<leftarrow> selectedItems r. weight it) \<and> subseq (selectedItems r) items"
proof -
  from backtrack_collects[of "length items" items "dp_table items cap" cap "[]" 0 0]
  obtain picked where p:
    "fst (backtrack (dp_table items cap) items (length items) cap ([], 0, 0)) = picked"
    "fst (snd (backtrack (dp_table items cap) items (length items) cap ([], 0, 0))) =
       (\<Sum>it \<leftarrow> picked. weight it)"
    "subseq (rev picked) items"
    by auto
  from assms have r: "selectedItems r = rev picked" "totalWeight r = (\<Sum>it \<leftarrow> picked. weight it)"
    using p(1,2)
    by (auto simp: optimizeValue_def Let_def split: if_splits prod.splits)
  have "(\<Sum>it \<leftarrow> rev picked. weight it) = (\<Sum>it \<leftarrow> picked. weight it)"
    by (simp add: rev_map[symmetric])
  with r p(3) show ?thesis by simp
qed

lemma optimizeValue_optimal_for_positive_weights:
  assumes "0 \<le> cap" and "\<forall>it \<in> set items. 0 < weight it" and "cap \<le> 4294967294"
  shows "\<exists>r. optimizeValue items cap = Inr r \<and>
             totalValue r = Some (Fin (brute_force_value items cap))"
proof -
  have "read_cell (dp_table items cap ! length items) cap =
        Some (Fin (brute_force_value items cap))"
    unfolding dp_table_last_row[OF assms(2)]
    by (rule read_cell_values) (use assms(1) in simp_all)
  with assms(1,3) show ?thesis
    by (simp add: optimizeValue_def Let_def split: prod.splits)
qed

end
